theory Spec2Isabelle
  imports Main "HOL-Library.Word" "HOL-Library.Char_ord"
begin

section \<open>Point lookup in a LOUDS-encoded succinct trie\<close>

text \<open>
  The embedding follows \<^verbatim>\<open>include/cuco/detail/trie/trie_ref.inl\<close>. The C++ types
  \<^verbatim>\<open>uint32_t\<close> and \<^verbatim>\<open>uint64_t\<close> are \<open>32 word\<close> and \<open>64 word\<close>, so every
  addition, subtraction and increment wraps as in the source. A read outside an array,
  a \<open>select\<close> of a set bit that does not exist and a \<open>find_next_set\<close> with no set bit
  ahead are undefined behaviour in the source; here each of them is a value of type
  \<open>error\<close>. The two loops of the source can run forever once 32-bit indices wrap, so they
  are partial functions into \<open>option\<close>, where \<open>None\<close> stands for not returning.
\<close>

subsection \<open>Errors\<close>

datatype error = OutOfBounds | SelectUndefined | NoNextSet

subsection \<open>The bit-sequence index\<close>

text \<open>
  The class behind \<^verbatim>\<open>d_louds_refs_ptr_[i]\<close> and \<^verbatim>\<open>d_outs_refs_ptr_[i]\<close> is not part of
  the file; only its four operations are called. A bit sequence is the list of its bits,
  and positions and counts are natural numbers.
\<close>

type_synonym bit_vector = "bool list"

text \<open>The positions of the set bits, in increasing order.\<close>

definition set_positions :: "bit_vector \<Rightarrow> nat list" where
  "set_positions bv = filter (\<lambda>p. bv ! p) [0..<length bv]"

text \<open>Modelled from the spec: \<open>get(i)\<close>, the value of the bit at position \<open>i\<close> (the
  bit-sequence class is missing from the sources). A position past the end is out of bounds.\<close>

definition get :: "bit_vector \<Rightarrow> nat \<Rightarrow> error + bool" where
  "get bv i = (if i < length bv then Inr (bv ! i) else Inl OutOfBounds)"

text \<open>Modelled from the spec: \<open>rank(i)\<close>, the count of set bits in positions \<open>[0, i)\<close>
  (the bit-sequence class is missing from the sources).\<close>

definition rank :: "bit_vector \<Rightarrow> nat \<Rightarrow> nat" where
  "rank bv i = length (filter id (take i bv))"

text \<open>Modelled from the spec: \<open>select(k)\<close>, the position of the \<open>(k+1)\<close>-th set bit, with
  \<open>select(0)\<close> the position of the first one; undefined or an error when fewer than
  \<open>k+1\<close> set bits exist (the bit-sequence class is missing from the sources).\<close>

definition select :: "bit_vector \<Rightarrow> nat \<Rightarrow> error + nat" where
  "select bv k =
     (if k < length (set_positions bv) then Inr (set_positions bv ! k)
      else Inl SelectUndefined)"

text \<open>Modelled from the spec: \<open>findNextSet(pos)\<close>, the position of the first set bit at or
  after \<open>pos\<close>, which the spec assumes to exist (the bit-sequence class is missing from
  the sources). Where there is none the source would read past the sequence.\<close>

definition find_next_set :: "bit_vector \<Rightarrow> nat \<Rightarrow> error + nat" where
  "find_next_set bv pos =
     (case filter (\<lambda>p. pos \<le> p) (set_positions bv) of
        [] \<Rightarrow> Inl NoNextSet
      | p # _ \<Rightarrow> Inr p)"

subsection \<open>The trie view\<close>

text \<open>
  One entry of \<^verbatim>\<open>d_levels_ptr_\<close>: the label array of a depth and the number of keys that
  end at a shallower depth. The trie holds three arrays indexed by depth; their names
  are the source's without the final underscore.
\<close>

record 'a level =
  d_labels_ptr :: "'a list"
  offset :: nat

record 'a trie =
  d_levels_ptr :: "'a level list"
  d_louds_refs_ptr :: "bit_vector list"
  d_outs_refs_ptr :: "bit_vector list"

subsection \<open>\<^verbatim>\<open>get_last_child_position\<close>\<close>

text \<open>
  The result is the pair of the returned position and the value left in the reference
  parameter \<^verbatim>\<open>node_id\<close>. The first \<open>case\<close> is the \<^verbatim>\<open>if\<close> of the source, which
  sets \<^verbatim>\<open>node_pos\<close> and \<^verbatim>\<open>node_id\<close>. The value of \<open>select\<close> plus one and the value
  of \<open>find_next_set\<close> are stored in \<^verbatim>\<open>uint32_t\<close> variables, which truncates them.
\<close>

definition get_last_child_position ::
  "bit_vector \<Rightarrow> 32 word \<Rightarrow> error + (32 word \<times> 32 word)" where
  "get_last_child_position louds node_id =
     (case (if node_id \<noteq> 0 then
              (case select louds (unat (node_id - 1)) of
                 Inl e \<Rightarrow> Inl e
               | Inr s \<Rightarrow> Inr (of_nat (s + 1) :: 32 word, of_nat (s + 1) - node_id))
            else Inr (0, node_id)) of
        Inl e \<Rightarrow> Inl e
      | Inr (node_pos, node_id') \<Rightarrow>
          (case find_next_set louds (unat node_pos) of
             Inl e \<Rightarrow> Inl e
           | Inr pos_end \<Rightarrow> Inr (node_id' + (of_nat pos_end - node_pos), node_id')))"

subsection \<open>\<^verbatim>\<open>search_label_in_children\<close>\<close>

text \<open>
  The \<^verbatim>\<open>while\<close> loop of the binary search. Its state is \<^verbatim>\<open>begin\<close>, \<^verbatim>\<open>end\<close> and
  \<^verbatim>\<open>node_id\<close>; it returns the state at the exit, by the loop condition or by \<^verbatim>\<open>break\<close>.
\<close>

partial_function (option) binary_search ::
  "'a::linorder list \<Rightarrow> 'a \<Rightarrow> 32 word \<Rightarrow> 32 word \<Rightarrow> 32 word
     \<Rightarrow> (error + (32 word \<times> 32 word \<times> 32 word)) option" where
  "binary_search labels target begin end node_id =
     (if begin < end then
        (let node_id = (begin + end) div 2 in
         if unat node_id < length labels then
           (let label = labels ! unat node_id in
            if target < label then binary_search labels target begin node_id node_id
            else if target > label then binary_search labels target (node_id + 1) end node_id
            else Some (Inr (begin, end, node_id)))
         else Some (Inl OutOfBounds))
      else Some (Inr (begin, end, node_id)))"

declare binary_search.simps [code]

text \<open>The result is the pair of the returned flag and the value left in \<^verbatim>\<open>node_id\<close>.\<close>

definition search_label_in_children ::
  "'a::linorder trie \<Rightarrow> 'a \<Rightarrow> 32 word \<Rightarrow> 32 word \<Rightarrow> (error + (bool \<times> 32 word)) option" where
  "search_label_in_children t target node_id level_id =
     (if unat level_id < length (d_louds_refs_ptr t) then
        (case get_last_child_position (d_louds_refs_ptr t ! unat level_id) node_id of
           Inl e \<Rightarrow> Some (Inl e)
         | Inr (end, begin) \<Rightarrow>
             (if unat level_id < length (d_levels_ptr t) then
                (case binary_search (d_labels_ptr (d_levels_ptr t ! unat level_id))
                        target begin end begin of
                   None \<Rightarrow> None
                 | Some (Inl e) \<Rightarrow> Some (Inl e)
                 | Some (Inr (begin', end', node_id')) \<Rightarrow> Some (Inr (begin' < end', node_id')))
              else Some (Inl OutOfBounds)))
      else Some (Inl OutOfBounds))"

subsection \<open>\<^verbatim>\<open>lookup_key\<close>\<close>

text \<open>
  The \<^verbatim>\<open>for\<close> loop either returns from the function or runs to its end and leaves
  \<^verbatim>\<open>node_id\<close>. The key is the list of the symbols the iterator can reach; reading
  \<^verbatim>\<open>key[cur_depth - 1]\<close> past it is out of bounds.
\<close>

datatype loop_exit = Returned "64 word" | Completed "32 word"

text \<open>
  The literal \<^verbatim>\<open>-1lu\<close> of the two \<^verbatim>\<open>return\<close> statements: the largest value of
  \<^verbatim>\<open>unsigned long\<close>, taken with the 64 bits it has on the LP64 platforms of the device
  compiler, and returned as \<^verbatim>\<open>uint64_t\<close>.
\<close>

definition NOT_FOUND :: "64 word" where
  "NOT_FOUND = - 1"

partial_function (option) lookup_loop ::
  "'a::linorder trie \<Rightarrow> 'a list \<Rightarrow> 64 word \<Rightarrow> 32 word \<Rightarrow> 32 word
     \<Rightarrow> (error + loop_exit) option" where
  "lookup_loop t key len cur_depth node_id =
     (if (ucast cur_depth :: 64 word) \<le> len then
        (if unat (cur_depth - 1) < length key then
           (case search_label_in_children t (key ! unat (cur_depth - 1)) node_id cur_depth of
              None \<Rightarrow> None
            | Some (Inl e) \<Rightarrow> Some (Inl e)
            | Some (Inr (found, node_id')) \<Rightarrow>
                (if \<not> found then Some (Inr (Returned NOT_FOUND))
                 else lookup_loop t key len (cur_depth + 1) node_id'))
         else Some (Inl OutOfBounds))
      else Some (Inr (Completed node_id)))"

declare lookup_loop.simps [code]

definition lookup_key :: "'a::linorder trie \<Rightarrow> 'a list \<Rightarrow> 64 word \<Rightarrow> (error + 64 word) option" where
  "lookup_key t key len =
     (case lookup_loop t key len 1 0 of
        None \<Rightarrow> None
      | Some (Inl e) \<Rightarrow> Some (Inl e)
      | Some (Inr (Returned v)) \<Rightarrow> Some (Inr v)
      | Some (Inr (Completed node_id)) \<Rightarrow>
          (if unat len < length (d_outs_refs_ptr t) then
             (case get (d_outs_refs_ptr t ! unat len) (unat node_id) of
                Inl e \<Rightarrow> Some (Inl e)
              | Inr b \<Rightarrow>
                  (if \<not> b then Some (Inr NOT_FOUND)
                   else if unat len < length (d_levels_ptr t) then
                     Some (Inr (of_nat (offset (d_levels_ptr t ! unat len)
                                        + rank (d_outs_refs_ptr t ! unat len) (unat node_id))))
                   else Some (Inl OutOfBounds)))
           else Some (Inl OutOfBounds)))"

subsection \<open>Well-formed trie views and the keys they store\<close>

text \<open>
  The build phase that fills the arrays is not part of the file. What it has to deliver is
  the data model of the specification, written here as a predicate on the view. A slot of
  a depth is an index into the \<open>labels\<close> and terminal bits of that depth; the number of
  slots is the length of the terminal-bit sequence.
\<close>

definition num_slots :: "'a trie \<Rightarrow> nat \<Rightarrow> nat" where
  "num_slots t d = length (d_outs_refs_ptr t ! d)"

text \<open>Modelled from the spec: the parent of a slot in the LOUDS encoding (the build phase
  is missing from the sources). In the LOUDS sequence of a depth every slot is an unset bit
  and every parent closes its block of children with a set bit. Slot \<open>j\<close> is the \<open>j\<close>-th
  unset bit, and its parent is the number of set bits before it.\<close>

definition slot_position :: "bit_vector \<Rightarrow> nat \<Rightarrow> nat" where
  "slot_position louds j = filter (\<lambda>p. \<not> louds ! p) [0..<length louds] ! j"

definition parent_of :: "bit_vector \<Rightarrow> nat \<Rightarrow> nat" where
  "parent_of louds j = rank louds (slot_position louds j)"

text \<open>Modelled from the spec: the LOUDS invariant (the build phase is missing from the
  sources): one separator after the block of each parent, one unset bit for each child
  slot, and nothing after the last separator.\<close>

definition louds_ok :: "bit_vector \<Rightarrow> nat \<Rightarrow> nat \<Rightarrow> bool" where
  "louds_ok louds parents children \<longleftrightarrow>
     length (filter id louds) = parents \<and> length (filter Not louds) = children \<and>
     (louds \<noteq> [] \<longrightarrow> last louds)"

text \<open>Modelled from the spec: the order of the labels (the build phase is missing from
  the sources): the labels of the children of one parent are ascending, and so pairwise
  distinct.\<close>

definition labels_ok :: "bit_vector \<Rightarrow> 'a::linorder list \<Rightarrow> bool" where
  "labels_ok louds labels \<longleftrightarrow>
     (\<forall>j' \<in> {0..<length labels}. \<forall>j \<in> {0..<j'}.
        parent_of louds j = parent_of louds j' \<longrightarrow> labels ! j < labels ! j')"

text \<open>Modelled from the spec: the number of stored keys, one for each set terminal bit
  (the build phase is missing from the sources).\<close>

definition terminal_count :: "bit_vector list \<Rightarrow> nat" where
  "terminal_count outs = sum_list (map (\<lambda>bv. length (filter id bv)) outs)"

definition key_count :: "'a trie \<Rightarrow> nat" where
  "key_count t = terminal_count (d_outs_refs_ptr t)"

text \<open>Modelled from the spec: the well-formed view that the build phase delivers (the build
  phase is missing from the sources). The three arrays have one entry for each depth, in
  the specification from the root at depth 0 to the greatest length of a key; further
  depths without slots do no harm. The root is the single slot of depth 0; the offset of a
  depth counts the terminal slots of the shallower depths; and from depth 1 on the labels,
  the LOUDS bits and the terminal bits of a depth agree. The data model bounds no size.\<close>

definition well_formed :: "'a::linorder trie \<Rightarrow> bool" where
  "well_formed t \<longleftrightarrow>
     0 < length (d_levels_ptr t) \<and>
     length (d_louds_refs_ptr t) = length (d_levels_ptr t) \<and>
     length (d_outs_refs_ptr t) = length (d_levels_ptr t) \<and>
     num_slots t 0 = 1 \<and>
     (\<forall>d \<in> {0..<length (d_levels_ptr t)}.
        offset (d_levels_ptr t ! d) = terminal_count (take d (d_outs_refs_ptr t))) \<and>
     (\<forall>d \<in> {1..<length (d_levels_ptr t)}.
        length (d_labels_ptr (d_levels_ptr t ! d)) = num_slots t d \<and>
        louds_ok (d_louds_refs_ptr t ! d) (num_slots t (d - 1)) (num_slots t d) \<and>
        labels_ok (d_louds_refs_ptr t ! d) (d_labels_ptr (d_levels_ptr t ! d)))"

text \<open>
  The sizes that the integer types of the lookup can handle: the depths fit the 32-bit loop
  counter \<^verbatim>\<open>cur_depth\<close>, and the slots of a depth fit the 32-bit \<^verbatim>\<open>node_id\<close> with room
  for the sum in the midpoint \<^verbatim>\<open>(begin + end) / 2\<close>, so that there are fewer than \<open>2\<^sup>3\<^sup>1\<close>
  of them and the LOUDS sequence of a depth has fewer than \<open>2\<^sup>3\<^sup>2\<close> bits. Then the
  number of stored keys is below \<open>2\<^sup>6\<^sup>4\<close>, and every rank is below the sentinel.
\<close>

definition index_bounds :: "'a trie \<Rightarrow> bool" where
  "index_bounds t \<longleftrightarrow>
     length (d_levels_ptr t) < 2 ^ 32 \<and>
     (\<forall>d \<in> {0..<length (d_levels_ptr t)}. num_slots t d < 2 ^ 31)"

text \<open>The views of the data model that are within these bounds.\<close>

definition wf_trie :: "'a::linorder trie \<Rightarrow> bool" where
  "wf_trie t \<longleftrightarrow> well_formed t \<and> index_bounds t"

text \<open>Modelled from the spec: the key that ends at slot \<open>j\<close> of depth \<open>d\<close> (the build
  phase is missing from the sources): the labels on the way from the root.\<close>

fun key_of_slot :: "'a trie \<Rightarrow> nat \<Rightarrow> nat \<Rightarrow> 'a list" where
  "key_of_slot t 0 j = []"
| "key_of_slot t (Suc d) j =
     key_of_slot t d (parent_of (d_louds_refs_ptr t ! Suc d) j)
       @ [d_labels_ptr (d_levels_ptr t ! Suc d) ! j]"

text \<open>Modelled from the spec: the build set of a view (the build phase is missing from
  the sources). The terminal bit of a slot is set exactly when the key that ends at the
  slot is in the build set, so the build set is the list of the keys of the terminal slots,
  depth by depth and slot by slot.\<close>

definition keys_at_depth :: "'a trie \<Rightarrow> nat \<Rightarrow> 'a list list" where
  "keys_at_depth t d =
     map (key_of_slot t d) (filter (\<lambda>j. d_outs_refs_ptr t ! d ! j) [0..<num_slots t d])"

definition stored_keys :: "'a trie \<Rightarrow> 'a list list" where
  "stored_keys t = concat (map (keys_at_depth t) [0..<length (d_outs_refs_ptr t)])"

subsection \<open>The traversal in terms of slots\<close>

text \<open>
  The child range of parent \<open>i\<close> as natural numbers: the block of the parent starts after
  the separator of parent \<open>i - 1\<close> and ends at its own separator; taking away the \<open>i\<close>
  separators before the block turns bit positions into slot indices.
\<close>

definition block_start :: "bit_vector \<Rightarrow> nat \<Rightarrow> nat" where
  "block_start louds i = (if i = 0 then 0 else set_positions louds ! (i - 1) + 1)"

definition child_begin :: "bit_vector \<Rightarrow> nat \<Rightarrow> nat" where
  "child_begin louds i = block_start louds i - i"

definition child_end :: "bit_vector \<Rightarrow> nat \<Rightarrow> nat" where
  "child_end louds i = set_positions louds ! i - i"

text \<open>The slot of depth \<open>d\<close> that is the child of slot \<open>i\<close> with label \<open>c\<close>, if there is
  one, and the slot a sequence of symbols leads to from slot \<open>i\<close> of depth \<open>d\<close>.\<close>

definition child_slot :: "'a trie \<Rightarrow> nat \<Rightarrow> nat \<Rightarrow> 'a \<Rightarrow> nat option" where
  "child_slot t d i c =
     find (\<lambda>j. parent_of (d_louds_refs_ptr t ! d) j = i \<and> d_labels_ptr (d_levels_ptr t ! d) ! j = c)
       [0..<num_slots t d]"

fun walk :: "'a trie \<Rightarrow> nat \<Rightarrow> nat \<Rightarrow> 'a list \<Rightarrow> nat option" where
  "walk t d i [] = Some i"
| "walk t d i (c # cs) =
     (case child_slot t (Suc d) i c of None \<Rightarrow> None | Some j \<Rightarrow> walk t (Suc d) j cs)"

subsection \<open>Views for the examples\<close>

text \<open>
  The view of the build set \<open>a\<close>, \<open>an\<close>, \<open>and\<close>, \<open>ant\<close>, with the depths 0 to 3, and a
  view of the build set \<open>\<epsilon>\<close>, \<open>b\<close>, \<open>c\<close>, \<open>ay\<close>, \<open>cz\<close>, \<open>axp\<close>, \<open>czq\<close>, in which the root
  is terminal and several nodes have no children.
\<close>

definition ant_trie :: "char trie" where
  "ant_trie =
     \<lparr> d_levels_ptr =
         [\<lparr>d_labels_ptr = [], offset = 0\<rparr>,
          \<lparr>d_labels_ptr = ''a'', offset = 0\<rparr>,
          \<lparr>d_labels_ptr = ''n'', offset = 1\<rparr>,
          \<lparr>d_labels_ptr = ''dt'', offset = 2\<rparr>],
       d_louds_refs_ptr = [[], [False, True], [False, True], [False, False, True]],
       d_outs_refs_ptr = [[False], [True], [True], [True, True]] \<rparr>"

definition bush_trie :: "char trie" where
  "bush_trie =
     \<lparr> d_levels_ptr =
         [\<lparr>d_labels_ptr = [], offset = 0\<rparr>,
          \<lparr>d_labels_ptr = ''abc'', offset = 1\<rparr>,
          \<lparr>d_labels_ptr = ''xyz'', offset = 3\<rparr>,
          \<lparr>d_labels_ptr = ''pq'', offset = 5\<rparr>],
       d_louds_refs_ptr =
         [[], [False, False, False, True], [False, False, True, True, False, True],
          [False, True, True, False, True]],
       d_outs_refs_ptr = [[True], [False, True, True], [False, True, True], [True, True]] \<rparr>"

text \<open>The first view with one more depth, which has no slots: every node of depth 3 has
  an empty block in its LOUDS sequence.\<close>

definition ant_trie_padded :: "char trie" where
  "ant_trie_padded =
     \<lparr> d_levels_ptr = d_levels_ptr ant_trie @ [\<lparr>d_labels_ptr = [], offset = 4\<rparr>],
       d_louds_refs_ptr = d_louds_refs_ptr ant_trie @ [[True, True]],
       d_outs_refs_ptr = d_outs_refs_ptr ant_trie @ [[]] \<rparr>"


subsection \<open>Views beyond the index bounds\<close>



text \<open>
  In the second, the root has the children 0 and 1; node 0 has the \<open>2\<^sup>3\<^sup>1\<close> children
  \<open>10, 11, \<dots>\<close> and node 1 has the children 1 and 2, in the slots \<open>2\<^sup>3\<^sup>1\<close> and \<open>2\<^sup>3\<^sup>1 + 1\<close>
  of depth 2. All nodes of depths 1 and 2 are terminal, so the keys \<open>[1, 1]\<close> and \<open>[1, 2]\<close>
  are stored.
\<close>

definition lopsided_louds :: bit_vector where
  "lopsided_louds = replicate (2 ^ 31) False @ [True, False, False, True]"

definition lopsided_labels :: "nat list" where
  "lopsided_labels = map (\<lambda>j. 10 + j) [0..<2 ^ 31] @ [1, 2]"

definition lopsided_trie :: "nat trie" where
  "lopsided_trie =
     \<lparr> d_levels_ptr =
         [\<lparr>d_labels_ptr = [], offset = 0\<rparr>,
          \<lparr>d_labels_ptr = [0, 1], offset = 0\<rparr>,
          \<lparr>d_labels_ptr = lopsided_labels, offset = 2\<rparr>],
       d_louds_refs_ptr = [[], [False, False, True], lopsided_louds],
       d_outs_refs_ptr = [[False], [True, True], replicate (2 ^ 31 + 2) True] \<rparr>"

text \<open>
  In the third, the root has the \<open>2\<^sup>3\<^sup>2 - 1\<close> children \<open>0, 1, \<dots>, 2\<^sup>3\<^sup>2 - 2\<close>, all of them
  terminal.
\<close>

definition fan_trie :: "nat trie" where
  "fan_trie =
     \<lparr> d_levels_ptr =
         [\<lparr>d_labels_ptr = [], offset = 0\<rparr>,
          \<lparr>d_labels_ptr = [0..<2 ^ 32 - 1], offset = 0\<rparr>],
       d_louds_refs_ptr = [[], replicate (2 ^ 32 - 1) False @ [True]],
       d_outs_refs_ptr = [[False], replicate (2 ^ 32 - 1) True] \<rparr>"

text \<open>
  The fourth is a chain of \<open>2\<^sup>3\<^sup>2\<close> depths: every node has the one child 0, and only the
  node of the deepest depth, \<open>2\<^sup>3\<^sup>2 - 1\<close>, is terminal. It stores the key of \<open>2\<^sup>3\<^sup>2 - 1\<close>
  symbols 0.
\<close>

definition chain_trie :: "nat trie" where
  "chain_trie =
     \<lparr> d_levels_ptr =
         \<lparr>d_labels_ptr = [], offset = 0\<rparr>
           # replicate (2 ^ 32 - 1) \<lparr>d_labels_ptr = [0], offset = 0\<rparr>,
       d_louds_refs_ptr = [] # replicate (2 ^ 32 - 1) [False, True],
       d_outs_refs_ptr = replicate (2 ^ 32 - 1) [False] @ [[True]] \<rparr>"

section \<open>Bit sequences\<close>

subsection \<open>Counting in a filtered range\<close>

text \<open>The \<open>k\<close>-th element of a filtered range has \<open>k\<close> elements of the range before it.\<close>

lemma filter_upt_split:
  assumes "p < n"
  shows "filter P [0..<n] = filter P [0..<p] @ (if P p then [p] else []) @ filter P [Suc p..<n]"
proof -
  have "[0..<n] = [0..<p] @ p # [Suc p..<n]"
    using assms by (metis le_add1 le_add_same_cancel1 less_imp_add_positive upt_add_eq_append upt_conv_Cons)
  then show ?thesis by simp
qed

lemma filter_upt_nth_count:
  assumes "p < n" "P p"
  shows "filter P [0..<n] ! length (filter P [0..<p]) = p"
    and "length (filter P [0..<p]) < length (filter P [0..<n])"
  using filter_upt_split [OF assms(1), of P] assms(2) by (simp_all add: nth_append)

lemma filter_upt_count_nth:
  assumes "k < length (filter P [0..<n])"
  shows "filter P [0..<n] ! k < n" and "P (filter P [0..<n] ! k)"
    and "length (filter P [0..<filter P [0..<n] ! k]) = k"
proof -
  let ?q = "filter P [0..<n] ! k"
  have mem: "?q \<in> set (filter P [0..<n])" using assms by (rule nth_mem)
  then show q: "?q < n" and Pq: "P ?q" by simp_all
  have "filter P [0..<n] ! length (filter P [0..<?q]) = ?q"
    and "length (filter P [0..<?q]) < length (filter P [0..<n])"
    using filter_upt_nth_count [of ?q n P] q Pq by simp_all
  moreover have "distinct (filter P [0..<n])" by simp
  ultimately show "length (filter P [0..<?q]) = k"
    using assms by (simp add: nth_eq_iff_index_eq)
qed

subsection \<open>Rank and the positions of the set bits\<close>

lemma take_conv_map_nth: "i \<le> length bv \<Longrightarrow> take i bv = map ((!) bv) [0..<i]"
  by (metis map_nth take_map take_upt add_0)

lemma rank_conv_count: "i \<le> length bv \<Longrightarrow> rank bv i = length (filter (\<lambda>p. bv ! p) [0..<i])"
  by (simp add: rank_def take_conv_map_nth filter_map comp_def)

lemma zeros_conv_count:
  "i \<le> length bv \<Longrightarrow> length (filter Not (take i bv)) = length (filter (\<lambda>p. \<not> bv ! p) [0..<i])"
  by (simp add: take_conv_map_nth filter_map comp_def)

lemma rank_plus_zeros:
  "i \<le> length bv \<Longrightarrow> rank bv i + length (filter (\<lambda>p. \<not> bv ! p) [0..<i]) = i"
  using sum_length_filter_compl [of "\<lambda>p. bv ! p" "[0..<i]"] by (simp add: rank_conv_count)

lemma rank_mono: "i \<le> j \<Longrightarrow> rank bv i \<le> rank bv j"
proof -
  assume "i \<le> j"
  then have "take j bv = take i bv @ take (j - i) (drop i bv)"
    by (metis le_add_diff_inverse take_add)
  then show ?thesis by (simp add: rank_def)
qed

lemma rank_Suc:
  "i < length bv \<Longrightarrow> rank bv (Suc i) = rank bv i + (if bv ! i then 1 else 0)"
  by (simp add: rank_def take_Suc_conv_app_nth)

lemma rank_length: "rank bv (length bv) = length (filter id bv)"
  by (simp add: rank_def)

lemma rank_le: "rank bv i \<le> i"
  by (simp add: rank_def) (metis length_filter_le length_take min.cobounded2 order_trans)

lemma rank_less_imp_less: "rank bv p < rank bv q \<Longrightarrow> p < q"
  using rank_mono [of q p bv] by (cases "p < q") simp_all

lemma length_set_positions: "length (set_positions bv) = length (filter id bv)"
  using rank_conv_count [of "length bv" bv] by (simp add: set_positions_def rank_length)

lemma set_positions_nth:
  assumes "k < length (set_positions bv)"
  shows "set_positions bv ! k < length bv" and "bv ! (set_positions bv ! k)"
    and "rank bv (set_positions bv ! k) = k"
proof -
  have k: "k < length (filter (\<lambda>p. bv ! p) [0..<length bv])"
    using assms by (simp add: set_positions_def)
  show lt: "set_positions bv ! k < length bv" and "bv ! (set_positions bv ! k)"
    using filter_upt_count_nth(1,2) [OF k] by (simp_all add: set_positions_def)
  show "rank bv (set_positions bv ! k) = k"
    using filter_upt_count_nth(3) [OF k] lt by (simp add: set_positions_def rank_conv_count)
qed

lemma set_positions_rank:
  assumes "p < length bv" "bv ! p"
  shows "rank bv p < length (set_positions bv)" and "set_positions bv ! rank bv p = p"
  using filter_upt_nth_count [OF assms(1), of "\<lambda>p. bv ! p"] assms
  by (simp_all add: set_positions_def rank_conv_count)




section \<open>Child ranges\<close>

subsection \<open>The block of a parent\<close>

text \<open>The block of parent \<open>i\<close> starts where exactly \<open>i\<close> separators have passed, and the next set bit from there is the separator of the parent itself.\<close>

lemma rank_block_start:
  assumes "i < length (set_positions bv)"
  shows "rank bv (block_start bv i) = i"
proof (cases "i = 0")
  case True
  then show ?thesis by (simp add: block_start_def rank_def)
next
  case False
  then have k: "i - 1 < length (set_positions bv)" using assms by simp
  show ?thesis
    using False set_positions_nth [OF k] by (simp add: block_start_def rank_Suc)
qed

lemma block_start_le_set_position:
  assumes "i < length (set_positions bv)"
  shows "block_start bv i \<le> set_positions bv ! i"
proof (cases "i = 0")
  case True
  then show ?thesis by (simp add: block_start_def)
next
  case False
  then have k: "i - 1 < length (set_positions bv)" using assms by simp
  have "rank bv (set_positions bv ! (i - 1)) < rank bv (set_positions bv ! i)"
    using False set_positions_nth(3) [OF k] set_positions_nth(3) [OF assms] by simp
  then have "set_positions bv ! (i - 1) < set_positions bv ! i"
    by (rule rank_less_imp_less)
  then show ?thesis using False by (simp add: block_start_def)
qed

lemma index_le_block_start:
  assumes "i < length (set_positions bv)"
  shows "i \<le> block_start bv i"
  using rank_le [of bv "block_start bv i"] rank_block_start [OF assms] by simp

lemma set_position_less_block_start:
  assumes "i < length (set_positions bv)" "k < i"
  shows "set_positions bv ! k < block_start bv i"
proof -
  have k: "k < length (set_positions bv)" using assms by simp
  have "rank bv (set_positions bv ! k) < rank bv (block_start bv i)"
    using set_positions_nth(3) [OF k] rank_block_start [OF assms(1)] assms(2) by simp
  then show ?thesis by (rule rank_less_imp_less)
qed

lemma block_start_le_later_set_position:
  assumes "k < length (set_positions bv)" "i \<le> k"
  shows "block_start bv i \<le> set_positions bv ! k"
proof (rule ccontr)
  assume "\<not> block_start bv i \<le> set_positions bv ! k"
  then have "Suc (set_positions bv ! k) \<le> block_start bv i" by simp
  then have "rank bv (Suc (set_positions bv ! k)) \<le> rank bv (block_start bv i)"
    by (rule rank_mono)
  moreover have "i < length (set_positions bv)" using assms by simp
  ultimately show False
    using set_positions_nth [OF assms(1)] rank_block_start [of i bv] assms(2)
    by (simp add: rank_Suc)
qed

lemma find_next_set_block_start:
  assumes "i < length (set_positions bv)"
  shows "find_next_set bv (block_start bv i) = Inr (set_positions bv ! i)"
proof -
  let ?ps = "set_positions bv"
  have "filter (\<lambda>p. block_start bv i \<le> p) (take i ?ps) = []"
  proof -
    have "\<forall>x \<in> set (take i ?ps). \<not> block_start bv i \<le> x"
    proof
      fix x assume "x \<in> set (take i ?ps)"
      then obtain k where "k < i" "x = ?ps ! k"
        using assms by (auto simp: in_set_conv_nth)
      then show "\<not> block_start bv i \<le> x"
        using set_position_less_block_start [OF assms, of k] by simp
    qed
    then show ?thesis by (simp add: filter_empty_conv)
  qed
  moreover have "filter (\<lambda>p. block_start bv i \<le> p) (drop i ?ps) = drop i ?ps"
  proof -
    have "\<forall>x \<in> set (drop i ?ps). block_start bv i \<le> x"
    proof
      fix x assume "x \<in> set (drop i ?ps)"
      then obtain k where "k < length ?ps - i" "x = ?ps ! (i + k)"
        by (auto simp: in_set_conv_nth)
      then show "block_start bv i \<le> x"
        using block_start_le_later_set_position [of "i + k" bv i] by simp
    qed
    then show ?thesis by (simp add: filter_id_conv)
  qed
  ultimately have "filter (\<lambda>p. block_start bv i \<le> p) ?ps = drop i ?ps"
    by (metis append_Nil append_take_drop_id filter_append)
  also have "\<dots> = ?ps ! i # drop (Suc i) ?ps"
    using assms by (simp add: Cons_nth_drop_Suc)
  finally show ?thesis by (simp add: find_next_set_def)
qed

subsection \<open>The ranges of consecutive parents\<close>


lemma child_begin_Suc: "child_begin bv (Suc i) = child_end bv i"
  by (simp add: child_begin_def child_end_def block_start_def)

lemma child_begin_le_end:
  "i < length (set_positions bv) \<Longrightarrow> child_begin bv i \<le> child_end bv i"
  using block_start_le_set_position [of i bv] by (simp add: child_begin_def child_end_def)

lemma child_begin_mono:
  "i \<le> k \<Longrightarrow> k < length (set_positions bv) \<Longrightarrow> child_begin bv i \<le> child_begin bv k"
proof (induction k rule: dec_induct)
  case base
  show ?case by simp
next
  case (step n)
  then have "child_begin bv i \<le> child_begin bv n" by simp
  also have "\<dots> \<le> child_end bv n" using step.prems by (simp add: child_begin_le_end)
  finally show ?case by (simp add: child_begin_Suc)
qed

lemma child_end_le_begin:
  assumes "i < k" "k < length (set_positions bv)"
  shows "child_end bv i \<le> child_begin bv k"
  using child_begin_mono [of "Suc i" k bv] assms by (simp add: child_begin_Suc)

lemma louds_ok_length:
  "louds_ok bv P C \<Longrightarrow> length bv = P + C"
  using sum_length_filter_compl [of id bv] by (simp add: louds_ok_def comp_def)

lemma louds_ok_set_positions:
  "louds_ok bv P C \<Longrightarrow> length (set_positions bv) = P"
  by (simp add: louds_ok_def length_set_positions)

lemma louds_ok_last_set_position:
  assumes "louds_ok bv P C" "0 < P"
  shows "set_positions bv ! (P - 1) = length bv - 1"
proof -
  have ne: "bv \<noteq> []" using assms by (auto simp: louds_ok_def)
  then have lst: "bv ! (length bv - 1)" using assms by (simp add: louds_ok_def last_conv_nth)
  have lt: "length bv - 1 < length bv" using ne by simp
  have "rank bv (Suc (length bv - 1)) = rank bv (length bv - 1) + 1"
    using rank_Suc [OF lt] lst by simp
  moreover have "Suc (length bv - 1) = length bv" using ne by simp
  ultimately have "rank bv (length bv - 1) = P - 1"
    using assms by (simp add: rank_length louds_ok_def)
  then show ?thesis using set_positions_rank(2) [OF lt lst] by simp
qed

lemma child_end_last:
  assumes "louds_ok bv P C" "0 < P"
  shows "child_end bv (P - 1) = C"
  using louds_ok_last_set_position [OF assms] louds_ok_length [OF assms(1)] assms(2)
  by (simp add: child_end_def)

lemma child_end_le:
  assumes "louds_ok bv P C" "i < P"
  shows "child_end bv i \<le> C"
proof (cases "i = P - 1")
  case True
  then show ?thesis using child_end_last [OF assms(1)] assms(2) by simp
next
  case False
  then have "i < P - 1" using assms by simp
  then have "child_end bv i \<le> child_begin bv (P - 1)"
    using child_end_le_begin [of i "P - 1" bv] assms louds_ok_set_positions [OF assms(1)] by simp
  also have "\<dots> \<le> child_end bv (P - 1)"
    using child_begin_le_end [of "P - 1" bv] assms louds_ok_set_positions [OF assms(1)] by simp
  finally show ?thesis using child_end_last [OF assms(1)] assms(2) by simp
qed

subsection \<open>The parent of a slot\<close>

text \<open>A slot lies in the child range of its parent and of no other node.\<close>

lemma slot_position_props:
  assumes "louds_ok bv P C" "j < C"
  shows "slot_position bv j < length bv" and "\<not> bv ! slot_position bv j"
    and "rank bv (slot_position bv j) + j = slot_position bv j"
proof -
  have "length (filter (\<lambda>p. \<not> bv ! p) [0..<length bv]) = C"
    using assms(1) zeros_conv_count [of "length bv" bv] by (simp add: louds_ok_def)
  then have k: "j < length (filter (\<lambda>p. \<not> bv ! p) [0..<length bv])" using assms by simp
  show lt: "slot_position bv j < length bv" and "\<not> bv ! slot_position bv j"
    using filter_upt_count_nth(1,2) [OF k] by (simp_all add: slot_position_def)
  show "rank bv (slot_position bv j) + j = slot_position bv j"
    using filter_upt_count_nth(3) [OF k] rank_plus_zeros [of "slot_position bv j" bv] lt
    by (simp add: slot_position_def)
qed

lemma parent_of_less:
  assumes "louds_ok bv P C" "j < C"
  shows "parent_of bv j < P"
proof -
  note sp = slot_position_props [OF assms]
  have ne: "bv \<noteq> []" using sp(1) by auto
  then have lst: "bv ! (length bv - 1)" using assms by (simp add: louds_ok_def last_conv_nth)
  have "slot_position bv j \<noteq> length bv - 1" using sp(2) lst by auto
  then have "Suc (slot_position bv j) \<le> length bv - 1" using sp(1) by simp
  then have "rank bv (slot_position bv j) \<le> rank bv (length bv - 1)"
    using rank_mono [of "slot_position bv j" "length bv - 1" bv] by simp
  moreover have "rank bv (Suc (length bv - 1)) = rank bv (length bv - 1) + 1"
    using rank_Suc [of "length bv - 1" bv] lst ne by simp
  moreover have "Suc (length bv - 1) = length bv" using ne by simp
  ultimately show ?thesis using assms(1) by (simp add: parent_of_def rank_length louds_ok_def)
qed

lemma parent_of_range:
  assumes "louds_ok bv P C" "j < C"
  shows "child_begin bv (parent_of bv j) \<le> j" and "j < child_end bv (parent_of bv j)"
proof -
  let ?z = "slot_position bv j" and ?i = "parent_of bv j"
  note sp = slot_position_props [OF assms]
  have i: "?i < length (set_positions bv)"
    using parent_of_less [OF assms] louds_ok_set_positions [OF assms(1)] by simp
  have z: "?i + j = ?z" using sp(3) by (simp add: parent_of_def)
  have "rank bv (block_start bv ?i) = rank bv ?z"
    using rank_block_start [OF i] by (simp add: parent_of_def)
  have "block_start bv ?i \<le> ?z"
  proof (cases "?i = 0")
    case True
    then show ?thesis by (simp add: block_start_def)
  next
    case False
    then have k: "?i - 1 < length (set_positions bv)" using i by simp
    have "rank bv (set_positions bv ! (?i - 1)) < rank bv ?z"
      using set_positions_nth(3) [OF k] False by (simp add: parent_of_def)
    then have "set_positions bv ! (?i - 1) < ?z" by (rule rank_less_imp_less)
    then show ?thesis using False by (simp add: block_start_def)
  qed
  then show "child_begin bv ?i \<le> j" using z by (simp add: child_begin_def)
  have "?z < set_positions bv ! ?i"
  proof (rule ccontr)
    assume "\<not> ?z < set_positions bv ! ?i"
    moreover have "?z \<noteq> set_positions bv ! ?i" using set_positions_nth(2) [OF i] sp(2) by auto
    ultimately have "Suc (set_positions bv ! ?i) \<le> ?z" by simp
    then have "rank bv (Suc (set_positions bv ! ?i)) \<le> rank bv ?z" by (rule rank_mono)
    then show False using set_positions_nth [OF i] by (simp add: rank_Suc parent_of_def)
  qed
  then show "j < child_end bv ?i" using z by (simp add: child_end_def)
qed

lemma parent_of_unique:
  assumes "louds_ok bv P C" "i < P" "child_begin bv i \<le> j" "j < child_end bv i"
  shows "parent_of bv j = i" and "j < C"
proof -
  show jC: "j < C" using child_end_le [OF assms(1,2)] assms(4) by simp
  note pr = parent_of_range [OF assms(1) jC]
  have P: "length (set_positions bv) = P" by (rule louds_ok_set_positions [OF assms(1)])
  have pl: "parent_of bv j < P" by (rule parent_of_less [OF assms(1) jC])
  show "parent_of bv j = i"
  proof (rule ccontr)
    assume "parent_of bv j \<noteq> i"
    then consider "parent_of bv j < i" | "i < parent_of bv j" by linarith
    then show False
    proof cases
      case 1
      then show False
        using child_end_le_begin [of "parent_of bv j" i bv] pr assms P by simp
    next
      case 2
      then show False
        using child_end_le_begin [of i "parent_of bv j" bv] pr assms P pl by simp
    qed
  qed
qed


subsection \<open>The result of \<^verbatim>\<open>get_last_child_position\<close>\<close>

text \<open>For a bit sequence whose positions fit 32 bits the code returns the child range.\<close>

lemma unat_of_nat32: "n < 2 ^ 32 \<Longrightarrow> unat (of_nat n :: 32 word) = n"
  by (simp add: unat_of_nat)

lemma get_last_child_position_range_pos:
  assumes P: "i < length (set_positions bv)" and s: "set_positions bv ! i < 2 ^ 32"
  shows "get_last_child_position bv (of_nat i)
           = Inr (of_nat (child_end bv i), of_nat (child_begin bv i))"
proof -
  let ?s = "set_positions bv ! i" and ?b = "block_start bv i"
  have bs: "?b \<le> ?s" by (rule block_start_le_set_position [OF P])
  have ib: "i \<le> ?b" by (rule index_le_block_start [OF P])
  have i32: "i < 2 ^ 32" using ib bs s by simp
  have b32: "unat (of_nat ?b :: 32 word) = ?b"
    using bs s by (simp add: unat_of_nat)
  have fns: "find_next_set bv ?b = Inr ?s" by (rule find_next_set_block_start [OF P])
  have res: "(of_nat (?b - i) :: 32 word) + (of_nat ?s - of_nat ?b) = of_nat (?s - i)"
  proof -
    have "(of_nat (?b - i) :: 32 word) + (of_nat ?s - of_nat ?b) = of_nat ((?b - i) + (?s - ?b))"
      using bs by simp
    also have "(?b - i) + (?s - ?b) = ?s - i" using bs ib by simp
    finally show ?thesis .
  qed
  show ?thesis
  proof (cases "i = 0")
    case True
    then have "?b = 0" by (simp add: block_start_def)
    then show ?thesis
      using True fns by (simp add: get_last_child_position_def child_begin_def child_end_def)
  next
    case False
    have "unat (of_nat i :: 32 word) = i" using i32 by (simp add: unat_of_nat)
    then have nz: "(of_nat i :: 32 word) \<noteq> 0"
      using False by auto
    have "(of_nat i :: 32 word) - 1 = of_nat (i - 1)" using False by simp
    then have u: "unat ((of_nat i :: 32 word) - 1) = i - 1"
      using i32 by (simp add: unat_of_nat)
    have sel: "select bv (i - 1) = Inr (set_positions bv ! (i - 1))"
      using P by (simp add: select_def)
    have b: "?b = Suc (set_positions bv ! (i - Suc 0))" using False by (simp add: block_start_def)
    have d: "(of_nat ?b :: 32 word) - of_nat i = of_nat (?b - i)"
      using ib by simp
    show ?thesis
      using nz u sel fns res b32 d
      by (simp add: get_last_child_position_def child_begin_def child_end_def b [symmetric] del: of_nat_add of_nat_Suc)
  qed
qed

lemma get_last_child_position_range:
  assumes P: "i < length (set_positions bv)" and len: "length bv < 2 ^ 32"
  shows "get_last_child_position bv (of_nat i)
           = Inr (of_nat (child_end bv i), of_nat (child_begin bv i))"
proof -
  have "set_positions bv ! i < 2 ^ 32" using set_positions_nth(1) [OF P] len by simp
  then show ?thesis by (rule get_last_child_position_range_pos [OF P])
qed

section \<open>The binary search\<close>

subsection \<open>The midpoint\<close>

lemma of_nat32_less_iff:
  "a < 2 ^ 32 \<Longrightarrow> b < 2 ^ 32 \<Longrightarrow> (of_nat a :: 32 word) < of_nat b \<longleftrightarrow> a < b"
  by (simp add: word_less_nat_alt unat_of_nat32)

lemma of_nat32_midpoint:
  assumes "a + b < 2 ^ 32"
  shows "((of_nat a :: 32 word) + of_nat b) div 2 = of_nat ((a + b) div 2)"
proof -
  let ?w = "of_nat (a + b) :: 32 word"
  have "unat ?w = a + b" using assms by (rule unat_of_nat32)
  then have "?w div 2 = of_nat ((a + b) div 2)"
    by (subst word_arith_nat_div) simp
  then show ?thesis by simp
qed

subsection \<open>The loop\<close>

text \<open>Below \<open>2\<^sup>3\<^sup>1\<close> entries the sum \<^verbatim>\<open>begin + end\<close> does not wrap, the range shrinks with each round, and the searched label stays in it.\<close>

lemma binary_search_correct:
  assumes "b \<le> e" "e \<le> length labels" "length labels < 2 ^ 31"
    and "\<forall>x y. b \<le> x \<and> x < y \<and> y < e \<longrightarrow> labels ! x < labels ! y"
  shows "\<exists>b' e' n. binary_search labels target (of_nat b) (of_nat e) nid = Some (Inr (b', e', n)) \<and>
           (if b' < e' then b \<le> unat n \<and> unat n < e \<and> labels ! unat n = target
            else (\<forall>j. b \<le> j \<and> j < e \<longrightarrow> labels ! j \<noteq> target))"
  using assms
proof (induction "e - b" arbitrary: b e nid rule: less_induct)
  case less
  have e32: "e < 2 ^ 32" using less.prems by simp
  show ?case
  proof (cases "b < e")
    case False
    then have "b = e" using less.prems(1) by simp
    then have "\<not> (of_nat b :: 32 word) < of_nat e" by simp
    then show ?thesis
      using False by (subst binary_search.simps) auto
  next
    case True
    let ?m = "(b + e) div 2"
    have m: "b \<le> ?m" "?m < e" using True by simp_all
    have lt: "(of_nat b :: 32 word) < of_nat e"
      using True e32 by (simp add: of_nat32_less_iff)
    have "b + e < 2 ^ 32" using True less.prems by simp
    then have mid: "((of_nat b :: 32 word) + of_nat e) div 2 = of_nat ?m"
      by (rule of_nat32_midpoint)
    have um: "unat (of_nat ?m :: 32 word) = ?m" using m e32 by (simp add: unat_of_nat32)
    have ml: "?m < length labels" using m less.prems by simp
    have step: "binary_search labels target (of_nat b) (of_nat e) nid =
       (if target < labels ! ?m then binary_search labels target (of_nat b) (of_nat ?m) (of_nat ?m)
        else if labels ! ?m < target then binary_search labels target (of_nat ?m + 1) (of_nat e) (of_nat ?m)
        else Some (Inr (of_nat b, of_nat e, of_nat ?m)))"
      by (subst binary_search.simps) (simp add: lt mid um ml Let_def del: of_nat_add)
    have m1: "(of_nat ?m :: 32 word) + 1 = of_nat (?m + 1)" by simp
    consider (lo) "target < labels ! ?m" | (hi) "labels ! ?m < target" | (eq) "labels ! ?m = target"
      by (metis linorder_cases)
    then show ?thesis
    proof cases
      case lo
      have "\<exists>b' e' n. binary_search labels target (of_nat b) (of_nat ?m) (of_nat ?m) = Some (Inr (b', e', n)) \<and>
           (if b' < e' then b \<le> unat n \<and> unat n < ?m \<and> labels ! unat n = target
            else (\<forall>j. b \<le> j \<and> j < ?m \<longrightarrow> labels ! j \<noteq> target))"
        using less.prems m by (intro less.hyps) auto
      then obtain b' e' n where r: "binary_search labels target (of_nat b) (of_nat ?m) (of_nat ?m) = Some (Inr (b', e', n))"
        and p: "if b' < e' then b \<le> unat n \<and> unat n < ?m \<and> labels ! unat n = target
            else (\<forall>j. b \<le> j \<and> j < ?m \<longrightarrow> labels ! j \<noteq> target)" by blast
      have rest: "\<forall>j. ?m \<le> j \<and> j < e \<longrightarrow> labels ! j \<noteq> target"
      proof (intro allI impI)
        fix j assume j: "?m \<le> j \<and> j < e"
        have "labels ! ?m \<le> labels ! j"
        proof (cases "j = ?m")
          case False
          then have "labels ! ?m < labels ! j" using less.prems(4) m j by simp
          then show ?thesis by simp
        qed simp
        then show "labels ! j \<noteq> target" using lo by auto
      qed
      have "if b' < e' then b \<le> unat n \<and> unat n < e \<and> labels ! unat n = target
            else (\<forall>j. b \<le> j \<and> j < e \<longrightarrow> labels ! j \<noteq> target)"
      proof (cases "b' < e'")
        case True
        then show ?thesis using p m by auto
      next
        case False
        then have "\<forall>j. b \<le> j \<and> j < ?m \<longrightarrow> labels ! j \<noteq> target" using p by simp
        then show ?thesis using False rest by (metis not_le_imp_less)
      qed
      then show ?thesis using step lo r by simp
    next
      case hi
      have "\<exists>b' e' n. binary_search labels target (of_nat (?m + 1)) (of_nat e) (of_nat ?m) = Some (Inr (b', e', n)) \<and>
           (if b' < e' then ?m + 1 \<le> unat n \<and> unat n < e \<and> labels ! unat n = target
            else (\<forall>j. ?m + 1 \<le> j \<and> j < e \<longrightarrow> labels ! j \<noteq> target))"
        using less.prems m by (intro less.hyps) auto
      then obtain b' e' n where r: "binary_search labels target (of_nat (?m + 1)) (of_nat e) (of_nat ?m) = Some (Inr (b', e', n))"
        and p: "if b' < e' then ?m + 1 \<le> unat n \<and> unat n < e \<and> labels ! unat n = target
            else (\<forall>j. ?m + 1 \<le> j \<and> j < e \<longrightarrow> labels ! j \<noteq> target)" by blast
      have rest: "\<forall>j. b \<le> j \<and> j < ?m + 1 \<longrightarrow> labels ! j \<noteq> target"
      proof (intro allI impI)
        fix j assume j: "b \<le> j \<and> j < ?m + 1"
        have "labels ! j \<le> labels ! ?m"
        proof (cases "j = ?m")
          case False
          then have "labels ! j < labels ! ?m" using less.prems(4) m j by simp
          then show ?thesis by simp
        qed simp
        then show "labels ! j \<noteq> target" using hi by auto
      qed
      have "if b' < e' then b \<le> unat n \<and> unat n < e \<and> labels ! unat n = target
            else (\<forall>j. b \<le> j \<and> j < e \<longrightarrow> labels ! j \<noteq> target)"
      proof (cases "b' < e'")
        case True
        then show ?thesis using p m by auto
      next
        case False
        then have "\<forall>j. ?m + 1 \<le> j \<and> j < e \<longrightarrow> labels ! j \<noteq> target" using p by simp
        then show ?thesis using False rest by (metis not_le_imp_less)
      qed
      moreover have "\<not> target < labels ! ?m" using hi by simp
      ultimately show ?thesis using step hi r by (simp only: m1) simp
    next
      case eq
      then have "binary_search labels target (of_nat b) (of_nat e) nid = Some (Inr (of_nat b, of_nat e, of_nat ?m))"
        using step by simp
      then show ?thesis using lt um m eq by simp
    qed
  qed
qed

section \<open>The traversal of a well-formed view within the index bounds\<close>

subsection \<open>Well-formedness, unpacked\<close>

lemma wf_trie_well_formed: "wf_trie t \<Longrightarrow> well_formed t"
  by (simp add: wf_trie_def)

lemma well_formed_lengths:
  assumes "well_formed t"
  shows "0 < length (d_levels_ptr t)"
    and "length (d_louds_refs_ptr t) = length (d_levels_ptr t)"
    and "length (d_outs_refs_ptr t) = length (d_levels_ptr t)"
    and "num_slots t 0 = 1"
  using assms by (simp_all add: well_formed_def)

lemma sum_list_bounded:
  "(\<And>x. x \<in> set xs \<Longrightarrow> f x \<le> (b :: nat)) \<Longrightarrow> sum_list (map f xs) \<le> length xs * b"
proof (induction xs)
  case (Cons x xs)
  have "f x \<le> b" by (rule Cons.prems) simp
  moreover have "sum_list (map f xs) \<le> length xs * b" by (rule Cons.IH) (simp add: Cons.prems)
  ultimately show ?case by simp
qed simp

lemma key_count_bound:
  assumes "wf_trie t"
  shows "key_count t < 2 ^ 64"
proof -
  let ?outs = "d_outs_refs_ptr t"
  have len: "length ?outs = length (d_levels_ptr t)" "length (d_levels_ptr t) < 2 ^ 32"
    and slots: "\<forall>d \<in> {0..<length (d_levels_ptr t)}. num_slots t d < 2 ^ 31"
    using assms by (simp_all add: wf_trie_def well_formed_def index_bounds_def)
  have "length (filter id bv) \<le> 2 ^ 31" if mem: "bv \<in> set ?outs" for bv
  proof -
    obtain d where d: "d < length ?outs" "bv = ?outs ! d"
      using mem by (auto simp: in_set_conv_nth)
    have "length bv < 2 ^ 31" using slots d len(1) by (simp add: num_slots_def)
    then show ?thesis using length_filter_le [of id bv] by linarith
  qed
  then have "key_count t \<le> length ?outs * 2 ^ 31"
    unfolding key_count_def terminal_count_def by (rule sum_list_bounded)
  moreover have "length ?outs * 2 ^ 31 < (2 :: nat) ^ 32 * 2 ^ 31" using len by simp
  moreover have "(2 :: nat) ^ 32 * 2 ^ 31 < 2 ^ 64" by simp
  ultimately show ?thesis by linarith
qed

lemma wf_trie_lengths:
  assumes "wf_trie t"
  shows "0 < length (d_levels_ptr t)" and "length (d_levels_ptr t) < 2 ^ 32"
    and "length (d_louds_refs_ptr t) = length (d_levels_ptr t)"
    and "length (d_outs_refs_ptr t) = length (d_levels_ptr t)"
    and "num_slots t 0 = 1" and "key_count t < 2 ^ 64"
  using assms key_count_bound [OF assms]
  by (simp_all add: wf_trie_def well_formed_def index_bounds_def)

lemma wf_trie_level:
  assumes "wf_trie t" "d < length (d_levels_ptr t)"
  shows "num_slots t d < 2 ^ 31"
    and "offset (d_levels_ptr t ! d) = terminal_count (take d (d_outs_refs_ptr t))"
  using assms by (simp_all add: wf_trie_def well_formed_def index_bounds_def)

lemma well_formed_child_level:
  assumes "well_formed t" "0 < d" "d < length (d_levels_ptr t)"
  shows "length (d_labels_ptr (d_levels_ptr t ! d)) = num_slots t d"
    and "louds_ok (d_louds_refs_ptr t ! d) (num_slots t (d - 1)) (num_slots t d)"
    and "labels_ok (d_louds_refs_ptr t ! d) (d_labels_ptr (d_levels_ptr t ! d))"
proof -
  have "d \<in> {1..<length (d_levels_ptr t)}" using assms by simp
  then show "length (d_labels_ptr (d_levels_ptr t ! d)) = num_slots t d"
    and "louds_ok (d_louds_refs_ptr t ! d) (num_slots t (d - 1)) (num_slots t d)"
    and "labels_ok (d_louds_refs_ptr t ! d) (d_labels_ptr (d_levels_ptr t ! d))"
    using assms(1) unfolding well_formed_def by blast+
qed

lemma wf_trie_child_level:
  assumes "wf_trie t" "0 < d" "d < length (d_levels_ptr t)"
  shows "length (d_labels_ptr (d_levels_ptr t ! d)) = num_slots t d"
    and "louds_ok (d_louds_refs_ptr t ! d) (num_slots t (d - 1)) (num_slots t d)"
    and "labels_ok (d_louds_refs_ptr t ! d) (d_labels_ptr (d_levels_ptr t ! d))"
  using well_formed_child_level [OF _ assms(2,3)] assms(1) by (simp_all add: wf_trie_def)

lemma labels_okD:
  "labels_ok louds labels \<Longrightarrow> j < j' \<Longrightarrow> j' < length labels \<Longrightarrow>
     parent_of louds j = parent_of louds j' \<Longrightarrow> labels ! j < labels ! j'"
  by (simp add: labels_ok_def)

lemma wf_louds_length:
  assumes "wf_trie t" "0 < d" "d < length (d_levels_ptr t)"
  shows "length (d_louds_refs_ptr t ! d) < 2 ^ 32"
proof -
  have "num_slots t (d - 1) < 2 ^ 31" using wf_trie_level(1) [OF assms(1), of "d - 1"] assms by simp
  moreover have "num_slots t d < 2 ^ 31" by (rule wf_trie_level(1) [OF assms(1,3)])
  ultimately show ?thesis
    using louds_ok_length [OF wf_trie_child_level(2) [OF assms]] by simp
qed



subsection \<open>The views of the examples are well-formed and within the bounds\<close>

lemma ball_upt_conv: "(\<forall>d \<in> {a..<b}. P d) \<longleftrightarrow> list_all P [a..<b]"
  by (simp add: list_all_iff)

lemma wf_trie_ant: "wf_trie ant_trie"
  unfolding wf_trie_def
proof (rule conjI)
  show "well_formed ant_trie"
    unfolding well_formed_def
  proof (intro conjI)
    show "\<forall>d\<in>{0..<length (d_levels_ptr ant_trie)}.
       offset (d_levels_ptr ant_trie ! d) = terminal_count (take d (d_outs_refs_ptr ant_trie))"
      by (simp add: ball_upt_conv ant_trie_def num_slots_def terminal_count_def)
    show "\<forall>d\<in>{1..<length (d_levels_ptr ant_trie)}.
       length (d_labels_ptr (d_levels_ptr ant_trie ! d)) = num_slots ant_trie d \<and>
       louds_ok (d_louds_refs_ptr ant_trie ! d) (num_slots ant_trie (d - 1)) (num_slots ant_trie d) \<and>
       labels_ok (d_louds_refs_ptr ant_trie ! d) (d_labels_ptr (d_levels_ptr ant_trie ! d))"
      by code_simp
  qed (simp_all add: ant_trie_def num_slots_def)
  show "index_bounds ant_trie"
    by (simp add: index_bounds_def ball_upt_conv ant_trie_def num_slots_def key_count_def
        terminal_count_def)
qed

lemma wf_trie_bush: "wf_trie bush_trie"
  unfolding wf_trie_def
proof (rule conjI)
  show "well_formed bush_trie"
    unfolding well_formed_def
  proof (intro conjI)
    show "\<forall>d\<in>{0..<length (d_levels_ptr bush_trie)}.
       offset (d_levels_ptr bush_trie ! d) = terminal_count (take d (d_outs_refs_ptr bush_trie))"
      by (simp add: ball_upt_conv bush_trie_def num_slots_def terminal_count_def)
    show "\<forall>d\<in>{1..<length (d_levels_ptr bush_trie)}.
       length (d_labels_ptr (d_levels_ptr bush_trie ! d)) = num_slots bush_trie d \<and>
       louds_ok (d_louds_refs_ptr bush_trie ! d) (num_slots bush_trie (d - 1)) (num_slots bush_trie d) \<and>
       labels_ok (d_louds_refs_ptr bush_trie ! d) (d_labels_ptr (d_levels_ptr bush_trie ! d))"
      by code_simp
  qed (simp_all add: bush_trie_def num_slots_def)
  show "index_bounds bush_trie"
    by (simp add: index_bounds_def ball_upt_conv bush_trie_def num_slots_def key_count_def
        terminal_count_def)
qed

lemma wf_trie_ant_padded: "wf_trie ant_trie_padded"
  unfolding wf_trie_def
proof (rule conjI)
  show "well_formed ant_trie_padded"
    unfolding well_formed_def
  proof (intro conjI)
    show "\<forall>d\<in>{0..<length (d_levels_ptr ant_trie_padded)}.
       offset (d_levels_ptr ant_trie_padded ! d) = terminal_count (take d (d_outs_refs_ptr ant_trie_padded))"
      by (simp add: ball_upt_conv ant_trie_padded_def ant_trie_def num_slots_def terminal_count_def)
    show "\<forall>d\<in>{1..<length (d_levels_ptr ant_trie_padded)}.
       length (d_labels_ptr (d_levels_ptr ant_trie_padded ! d)) = num_slots ant_trie_padded d \<and>
       louds_ok (d_louds_refs_ptr ant_trie_padded ! d) (num_slots ant_trie_padded (d - 1)) (num_slots ant_trie_padded d) \<and>
       labels_ok (d_louds_refs_ptr ant_trie_padded ! d) (d_labels_ptr (d_levels_ptr ant_trie_padded ! d))"
      by code_simp
  qed (simp_all add: ant_trie_padded_def ant_trie_def num_slots_def)
  show "index_bounds ant_trie_padded"
    by (simp add: index_bounds_def ball_upt_conv ant_trie_padded_def ant_trie_def num_slots_def key_count_def
        terminal_count_def)
qed

subsection \<open>One depth\<close>

text \<open>\<^verbatim>\<open>search_label_in_children\<close> finds the child with the searched label, if there is one.\<close>

lemma child_slot_SomeD:
  assumes "child_slot t d i c = Some j"
  shows "j < num_slots t d" and "parent_of (d_louds_refs_ptr t ! d) j = i"
    and "d_labels_ptr (d_levels_ptr t ! d) ! j = c"
  using assms by (auto simp: child_slot_def find_Some_iff)

lemma child_slot_SomeI:
  assumes wf: "wf_trie t" "0 < d" "d < length (d_levels_ptr t)"
    and j: "j < num_slots t d" "parent_of (d_louds_refs_ptr t ! d) j = i"
      "d_labels_ptr (d_levels_ptr t ! d) ! j = c"
  shows "child_slot t d i c = Some j"
proof -
  let ?P = "\<lambda>j. parent_of (d_louds_refs_ptr t ! d) j = i \<and> d_labels_ptr (d_levels_ptr t ! d) ! j = c"
  note lv = wf_trie_child_level [OF wf]
  have "\<not> ?P j'" if "j' < j" for j'
  proof
    assume "?P j'"
    then have "d_labels_ptr (d_levels_ptr t ! d) ! j' < d_labels_ptr (d_levels_ptr t ! d) ! j"
      using labels_okD [OF lv(3) that] j lv(1) by simp
    then show False using \<open>?P j'\<close> j by simp
  qed
  then have "\<exists>k<length [0..<num_slots t d]. ?P ([0..<num_slots t d] ! k) \<and> j = [0..<num_slots t d] ! k \<and>
      (\<forall>k'<k. \<not> ?P ([0..<num_slots t d] ! k'))"
    using j by (intro exI [of _ j]) simp
  then show ?thesis unfolding child_slot_def find_Some_iff .
qed

lemma child_slot_NoneI:
  assumes "\<forall>j < num_slots t d. parent_of (d_louds_refs_ptr t ! d) j = i \<longrightarrow>
      d_labels_ptr (d_levels_ptr t ! d) ! j \<noteq> c"
  shows "child_slot t d i c = None"
  using assms by (auto simp: child_slot_def find_None_iff)

lemma search_label_in_children_correct:
  assumes wf: "wf_trie t" "0 < d" "d < length (d_levels_ptr t)" and i: "i < num_slots t (d - 1)"
  shows "\<exists>n. search_label_in_children t c (of_nat i) (of_nat d)
               = Some (Inr (child_slot t d i c \<noteq> None, n)) \<and>
             (\<forall>j. child_slot t d i c = Some j \<longrightarrow> n = of_nat j)"
proof -
  let ?louds = "d_louds_refs_ptr t ! d" and ?labels = "d_labels_ptr (d_levels_ptr t ! d)"
  let ?cb = "child_begin ?louds i" and ?ce = "child_end ?louds i"
  note lv = wf_trie_child_level [OF wf]
  note ln = wf_trie_lengths [OF wf(1)]
  have d32: "unat (of_nat d :: 32 word) = d" using wf(3) ln(2) by (simp add: unat_of_nat32)
  have P: "i < length (set_positions ?louds)"
    using louds_ok_set_positions [OF lv(2)] i by simp
  have glcp: "get_last_child_position ?louds (of_nat i) = Inr (of_nat ?ce, of_nat ?cb)"
    by (rule get_last_child_position_range [OF P wf_louds_length [OF wf]])
  have be: "?cb \<le> ?ce" by (rule child_begin_le_end [OF P])
  have el: "?ce \<le> length ?labels" using child_end_le [OF lv(2) i] lv(1) by simp
  have l31: "length ?labels < 2 ^ 31" using wf_trie_level(1) [OF wf(1,3)] lv(1) by simp
  have sorted: "\<forall>x y. ?cb \<le> x \<and> x < y \<and> y < ?ce \<longrightarrow> ?labels ! x < ?labels ! y"
  proof (intro allI impI)
    fix x y assume xy: "?cb \<le> x \<and> x < y \<and> y < ?ce"
    then have "parent_of ?louds x = i" "parent_of ?louds y = i"
      using parent_of_unique(1) [OF lv(2) i, of x] parent_of_unique(1) [OF lv(2) i, of y] by simp_all
    then show "?labels ! x < ?labels ! y"
      using labels_okD [OF lv(3), of x y] xy el by simp
  qed
  obtain b' e' n where bs: "binary_search ?labels c (of_nat ?cb) (of_nat ?ce) (of_nat ?cb) = Some (Inr (b', e', n))"
    and res: "if b' < e' then ?cb \<le> unat n \<and> unat n < ?ce \<and> ?labels ! unat n = c
            else (\<forall>j. ?cb \<le> j \<and> j < ?ce \<longrightarrow> ?labels ! j \<noteq> c)"
    using binary_search_correct [OF be el l31 sorted, of c "of_nat ?cb"] by blast
  have call: "search_label_in_children t c (of_nat i) (of_nat d) = Some (Inr (b' < e', n))"
    using glcp bs wf(3) ln(3) by (simp add: search_label_in_children_def d32)
  show ?thesis
  proof (cases "b' < e'")
    case True
    then have r: "?cb \<le> unat n" "unat n < ?ce" "?labels ! unat n = c" using res by simp_all
    have "child_slot t d i c = Some (unat n)"
      using parent_of_unique [OF lv(2) i r(1,2)] r(3) by (intro child_slot_SomeI [OF wf]) simp_all
    then show ?thesis using call True by simp
  next
    case False
    then have none: "\<forall>j. ?cb \<le> j \<and> j < ?ce \<longrightarrow> ?labels ! j \<noteq> c" using res by simp
    have "child_slot t d i c = None"
    proof (rule child_slot_NoneI, intro allI impI)
      fix j assume "j < num_slots t d" "parent_of ?louds j = i"
      then show "?labels ! j \<noteq> c"
        using parent_of_range [OF lv(2), of j] none by auto
    qed
    then show ?thesis using call False by simp
  qed
qed


subsection \<open>All depths\<close>

text \<open>The loop of \<^verbatim>\<open>lookup_key\<close> follows the key from the root, slot by slot.\<close>

lemma unat_of_nat64: "n < 2 ^ 64 \<Longrightarrow> unat (of_nat n :: 64 word) = n"
  by (simp add: unat_of_nat)

lemma depth_le_len_iff:
  assumes "a < 2 ^ 32" "b < 2 ^ 32"
  shows "(ucast (of_nat a :: 32 word) :: 64 word) \<le> of_nat b \<longleftrightarrow> a \<le> b"
proof -
  have "(ucast (of_nat a :: 32 word) :: 64 word) = of_nat a"
    using assms(1) by (simp add: unsigned_of_nat take_bit_nat_eq_self)
  then have "unat (ucast (of_nat a :: 32 word) :: 64 word) = a"
    using assms(1) by (simp add: unat_of_nat64)
  moreover have "unat (of_nat b :: 64 word) = b" using assms(2) by (simp add: unat_of_nat64)
  ultimately show ?thesis by (simp add: word_le_nat_alt)
qed

lemma lookup_loop_walk:
  assumes wf: "wf_trie t" and key: "key = pre @ cs" and len: "length key < length (d_levels_ptr t)"
    and i: "i < num_slots t (length pre)"
  shows "lookup_loop t key (of_nat (length key)) (of_nat (length pre + 1)) (of_nat i)
           = Some (Inr (case walk t (length pre) i cs of
                          None \<Rightarrow> Returned NOT_FOUND
                        | Some j \<Rightarrow> Completed (of_nat j)))"
  using key i
proof (induction cs arbitrary: pre i)
  case Nil
  note ln = wf_trie_lengths [OF wf]
  have "\<not> (ucast (of_nat (length key + 1) :: 32 word) :: 64 word) \<le> of_nat (length key)"
    using len ln(2) by (subst depth_le_len_iff) simp_all
  then show ?case using Nil by (subst lookup_loop.simps) simp
next
  case (Cons c cs)
  note ln = wf_trie_lengths [OF wf]
  let ?d = "length pre"
  have dk: "?d < length key" using Cons.prems by simp
  have cond: "(ucast (of_nat (?d + 1) :: 32 word) :: 64 word) \<le> of_nat (length key)"
    using dk len ln(2) by (subst depth_le_len_iff) simp_all
  have idx: "unat ((of_nat (?d + 1) :: 32 word) - 1) = ?d"
    using dk len ln(2) by (simp add: unat_of_nat32)
  have kc: "key ! ?d = c" using Cons.prems by simp
  obtain n where s: "search_label_in_children t c (of_nat i) (of_nat (?d + 1))
               = Some (Inr (child_slot t (?d + 1) i c \<noteq> None, n))"
    and n: "\<forall>j. child_slot t (?d + 1) i c = Some j \<longrightarrow> n = of_nat j"
    using search_label_in_children_correct [OF wf, of "?d + 1" i c] dk len Cons.prems(2) by auto
  show ?case
  proof (cases "child_slot t (?d + 1) i c")
    case None
    then show ?thesis
      using cond idx kc s dk by (subst lookup_loop.simps) (simp del: of_nat_add of_nat_Suc)
  next
    case (Some j)
    then have nj: "n = of_nat j" using n by simp
    have j: "j < num_slots t (length (pre @ [c]))"
      using child_slot_SomeD(1) [OF Some] by simp
    have "lookup_loop t key (of_nat (length key)) (of_nat (length (pre @ [c]) + 1)) (of_nat j)
           = Some (Inr (case walk t (length (pre @ [c])) j cs of
                          None \<Rightarrow> Returned NOT_FOUND
                        | Some j \<Rightarrow> Completed (of_nat j)))"
      using Cons.prems(1) j by (intro Cons.IH) simp_all
    moreover have "(of_nat (?d + 1) :: 32 word) + 1 = of_nat (length (pre @ [c]) + 1)" by simp
    ultimately have rec: "lookup_loop t key (of_nat (length key)) ((of_nat (?d + 1) :: 32 word) + 1) (of_nat j)
           = Some (Inr (case walk t (Suc ?d) j cs of
                          None \<Rightarrow> Returned NOT_FOUND
                        | Some j \<Rightarrow> Completed (of_nat j)))"
      by simp
    show ?thesis
      using cond idx kc s dk Some nj rec
      by (subst lookup_loop.simps) (simp del: of_nat_add of_nat_Suc)
  qed
qed

lemma length_key_of_slot: "length (key_of_slot t d j) = d"
  by (induction d arbitrary: j) simp_all

lemma walk_SomeD:
  assumes "walk t d i cs = Some j" "i < num_slots t d"
  shows "j < num_slots t (d + length cs)"
    and "key_of_slot t (d + length cs) j = key_of_slot t d i @ cs"
  using assms
proof (induction cs arbitrary: d i)
  case Nil
  { case 1 then show ?case by simp }
  { case 2 then show ?case by simp }
next
  case (Cons c cs)
  { case 1
    then obtain j' where c: "child_slot t (Suc d) i c = Some j'" and w: "walk t (Suc d) j' cs = Some j"
      by (auto split: option.splits)
    show ?case using Cons.IH(1) [OF w child_slot_SomeD(1) [OF c]] by simp }
  { case 2
    then obtain j' where c: "child_slot t (Suc d) i c = Some j'" and w: "walk t (Suc d) j' cs = Some j"
      by (auto split: option.splits)
    show ?case
      using Cons.IH(2) [OF w child_slot_SomeD(1) [OF c]] child_slot_SomeD(2,3) [OF c] by simp }
qed

lemma walk_append:
  "walk t d i (xs @ ys) =
     (case walk t d i xs of None \<Rightarrow> None | Some j \<Rightarrow> walk t (d + length xs) j ys)"
  by (induction xs arbitrary: d i) (simp_all split: option.splits)

lemma walk_key_of_slot:
  assumes wf: "wf_trie t" and "d < length (d_levels_ptr t)" "j < num_slots t d"
  shows "walk t 0 0 (key_of_slot t d j) = Some j"
  using assms(2,3)
proof (induction d arbitrary: j)
  case 0
  then show ?case using wf_trie_lengths(5) [OF wf] by simp
next
  case (Suc d)
  let ?p = "parent_of (d_louds_refs_ptr t ! Suc d) j"
  note lv = wf_trie_child_level [OF wf _ Suc.prems(1), simplified]
  have p: "?p < num_slots t d" using parent_of_less [OF lv(2) Suc.prems(2)] .
  have "walk t 0 0 (key_of_slot t d ?p) = Some ?p" using Suc.prems p by (intro Suc.IH) simp_all
  moreover have "child_slot t (Suc d) ?p (d_labels_ptr (d_levels_ptr t ! Suc d) ! j) = Some j"
    using Suc.prems by (intro child_slot_SomeI [OF wf]) simp_all
  ultimately show ?case by (simp add: walk_append length_key_of_slot)
qed

lemma lookup_key_walk:
  assumes wf: "wf_trie t" and len: "length key < length (d_levels_ptr t)"
  shows "lookup_key t key (of_nat (length key))
           = Some (Inr (case walk t 0 0 key of
                          None \<Rightarrow> NOT_FOUND
                        | Some j \<Rightarrow>
                            if d_outs_refs_ptr t ! length key ! j
                            then of_nat (offset (d_levels_ptr t ! length key)
                                         + rank (d_outs_refs_ptr t ! length key) j)
                            else NOT_FOUND))"
proof -
  note ln = wf_trie_lengths [OF wf]
  have l64: "unat (of_nat (length key) :: 64 word) = length key"
    using len ln(2) by (simp add: unat_of_nat64)
  have loop: "lookup_loop t key (of_nat (length key)) 1 0
           = Some (Inr (case walk t 0 0 key of
                          None \<Rightarrow> Returned NOT_FOUND
                        | Some j \<Rightarrow> Completed (of_nat j)))"
    using lookup_loop_walk [OF wf, of key "[]" key 0] len ln(5) by simp
  show ?thesis
  proof (cases "walk t 0 0 key")
    case None
    then show ?thesis using loop by (simp add: lookup_key_def)
  next
    case (Some j)
    then have j: "j < num_slots t (length key)"
      using walk_SomeD(1) [of t 0 0 key j] ln(5) by simp
    then have "j < 2 ^ 31" using wf_trie_level(1) [OF wf len] by simp
    then have "unat (of_nat j :: 32 word) = j" by (simp add: unat_of_nat32)
    then show ?thesis
      using loop Some j len ln(4) l64
      by (simp add: lookup_key_def get_def num_slots_def del: of_nat_add)
  qed
qed

subsection \<open>Keys that are longer than the view is deep\<close>

text \<open>The loop then either misses a label before the deepest depth or reads past the arrays.\<close>

lemma depth_le_len64_iff:
  assumes "a < 2 ^ 32" "b < 2 ^ 64"
  shows "(ucast (of_nat a :: 32 word) :: 64 word) \<le> of_nat b \<longleftrightarrow> a \<le> b"
proof -
  have "(ucast (of_nat a :: 32 word) :: 64 word) = of_nat a"
    using assms(1) by (simp add: unsigned_of_nat take_bit_nat_eq_self)
  then have "unat (ucast (of_nat a :: 32 word) :: 64 word) = a"
    using assms(1) by (simp add: unat_of_nat64)
  moreover have "unat (of_nat b :: 64 word) = b" using assms(2) by (simp add: unat_of_nat64)
  ultimately show ?thesis by (simp add: word_le_nat_alt)
qed

lemma lookup_loop_long_key:
  assumes wf: "wf_trie t" and key: "key = pre @ cs"
    and long: "length (d_levels_ptr t) \<le> length key" "length key < 2 ^ 64"
    and pre: "length pre < length (d_levels_ptr t)" and i: "i < num_slots t (length pre)"
  shows "lookup_loop t key (of_nat (length key)) (of_nat (length pre + 1)) (of_nat i)
           = Some (case walk t (length pre) i (take (length (d_levels_ptr t) - 1 - length pre) cs) of
                     None \<Rightarrow> Inr (Returned NOT_FOUND)
                   | Some j \<Rightarrow> Inl OutOfBounds)"
  using key pre i
proof (induction cs arbitrary: pre i)
  case Nil
  then show ?case using long by simp
next
  case (Cons c cs)
  note ln = wf_trie_lengths [OF wf]
  let ?d = "length pre" and ?n = "length (d_levels_ptr t)"
  have dk: "?d < length key" using Cons.prems by simp
  have d32: "?d + 1 < 2 ^ 32" using Cons.prems(2) ln(2) by simp
  have cond: "(ucast (of_nat (?d + 1) :: 32 word) :: 64 word) \<le> of_nat (length key)"
    using dk long(2) d32 by (subst depth_le_len64_iff) simp_all
  have idx: "unat ((of_nat (?d + 1) :: 32 word) - 1) = ?d"
    using d32 by (simp add: unat_of_nat32)
  have kc: "key ! ?d = c" using Cons.prems by simp
  show ?case
  proof (cases "?d + 1 = ?n")
    case True
    have "unat (of_nat (?d + 1) :: 32 word) = ?n" using True d32 by (simp only: unat_of_nat32)
    then have "search_label_in_children t c (of_nat i) (of_nat (?d + 1)) = Some (Inl OutOfBounds)"
      using ln(3) by (simp only: search_label_in_children_def) simp
    then show ?thesis
      using cond idx kc dk True
      by (subst lookup_loop.simps) (simp del: of_nat_add of_nat_Suc)
  next
    case False
    then have dn: "?d + 1 < ?n" using Cons.prems(2) by simp
    then have "?n - 1 - ?d = Suc (?n - 1 - (?d + 1))" by simp
    then have tk: "take (?n - 1 - ?d) (c # cs) = c # take (?n - 1 - (?d + 1)) cs"
      by (simp only: take_Suc_Cons)
    obtain n where s: "search_label_in_children t c (of_nat i) (of_nat (?d + 1))
               = Some (Inr (child_slot t (?d + 1) i c \<noteq> None, n))"
      and n: "\<forall>j. child_slot t (?d + 1) i c = Some j \<longrightarrow> n = of_nat j"
      using search_label_in_children_correct [OF wf, of "?d + 1" i c] dn Cons.prems(3) by auto
    show ?thesis
    proof (cases "child_slot t (?d + 1) i c")
      case None
      then show ?thesis
        using cond idx kc s dk tk by (subst lookup_loop.simps) (simp del: of_nat_add of_nat_Suc)
    next
      case (Some j)
      then have nj: "n = of_nat j" using n by simp
      have j: "j < num_slots t (length (pre @ [c]))"
        using child_slot_SomeD(1) [OF Some] by simp
      have "lookup_loop t key (of_nat (length key)) (of_nat (length (pre @ [c]) + 1)) (of_nat j)
           = Some (case walk t (length (pre @ [c])) j (take (?n - 1 - length (pre @ [c])) cs) of
                     None \<Rightarrow> Inr (Returned NOT_FOUND)
                   | Some j \<Rightarrow> Inl OutOfBounds)"
        using Cons.prems(1) j dn by (intro Cons.IH) simp_all
      moreover have "(of_nat (?d + 1) :: 32 word) + 1 = of_nat (length (pre @ [c]) + 1)" by simp
      ultimately have rec: "lookup_loop t key (of_nat (length key)) ((of_nat (?d + 1) :: 32 word) + 1) (of_nat j)
           = Some (case walk t (Suc ?d) j (take (?n - 1 - (?d + 1)) cs) of
                     None \<Rightarrow> Inr (Returned NOT_FOUND)
                   | Some j \<Rightarrow> Inl OutOfBounds)"
        by simp
      have "lookup_loop t key (of_nat (length key)) (of_nat (?d + 1)) (of_nat i)
          = lookup_loop t key (of_nat (length key)) ((of_nat (?d + 1) :: 32 word) + 1) (of_nat j)"
        using cond idx kc s dk Some nj
        by (subst lookup_loop.simps) (simp del: of_nat_add of_nat_Suc)
      then show ?thesis using rec tk Some by (simp del: of_nat_add of_nat_Suc)
    qed
  qed
qed

lemma lookup_key_long_key:
  assumes wf: "wf_trie t"
    and long: "length (d_levels_ptr t) \<le> length key" "length key < 2 ^ 64"
  shows "lookup_key t key (of_nat (length key))
           = Some (case walk t 0 0 (take (length (d_levels_ptr t) - 1) key) of
                     None \<Rightarrow> Inr NOT_FOUND
                   | Some j \<Rightarrow> Inl OutOfBounds)"
proof -
  note ln = wf_trie_lengths [OF wf]
  have "lookup_loop t key (of_nat (length key)) 1 0
           = Some (case walk t 0 0 (take (length (d_levels_ptr t) - 1) key) of
                     None \<Rightarrow> Inr (Returned NOT_FOUND)
                   | Some j \<Rightarrow> Inl OutOfBounds)"
    using lookup_loop_long_key [OF wf _ long, of "[]" key 0] ln(1,5) by simp
  then show ?thesis by (simp add: lookup_key_def split: option.splits)
qed

lemma walk_None_empty_level:
  assumes wf: "wf_trie t" and empty: "num_slots t (length (d_levels_ptr t) - 1) = 0"
    and long: "length (d_levels_ptr t) - 1 \<le> length key"
  shows "walk t 0 0 (take (length (d_levels_ptr t) - 1) key) = None"
proof (cases "walk t 0 0 (take (length (d_levels_ptr t) - 1) key)")
  case (Some j)
  have "j < num_slots t (0 + length (take (length (d_levels_ptr t) - 1) key))"
    by (rule walk_SomeD(1) [OF Some]) (simp add: wf_trie_lengths(5) [OF wf])
  then show ?thesis using empty long by (simp add: min_absorb2)
qed simp

section \<open>The stored keys and their ranks\<close>

subsection \<open>The enumeration of the stored keys\<close>

lemma concat_nth_offset:
  assumes "d < length xss" "k < length (xss ! d)"
  shows "concat xss ! (sum_list (map length (take d xss)) + k) = xss ! d ! k"
    and "sum_list (map length (take d xss)) + k < length (concat xss)"
  using assms
proof (induction xss arbitrary: d)
  case Nil
  { case 1 then show ?case by simp }
  { case 2 then show ?case by simp }
next
  case (Cons xs xss)
  { case 1
    show ?case
    proof (cases d)
      case 0
      then show ?thesis using 1 by (simp add: nth_append)
    next
      case (Suc d')
      then show ?thesis using 1 Cons.IH(1) [of d'] by (simp add: nth_append)
    qed }
  { case 2
    show ?case
    proof (cases d)
      case 0
      then show ?thesis using 2 by simp
    next
      case (Suc d')
      then show ?thesis using 2 Cons.IH(2) [of d'] by simp
    qed }
qed

lemma distinct_concat_upt:
  assumes "\<And>d. d < n \<Longrightarrow> distinct (f d)"
    and "\<And>d d'. d < d' \<Longrightarrow> d' < n \<Longrightarrow> set (f d) \<inter> set (f d') = {}"
  shows "distinct (concat (map f [0..<n]))"
  using assms
proof (induction n)
  case 0
  show ?case by simp
next
  case (Suc n)
  have "distinct (concat (map f [0..<n]))" using Suc.prems by (intro Suc.IH) simp_all
  moreover have "distinct (f n)" using Suc.prems(1) by simp
  moreover have "set (concat (map f [0..<n])) \<inter> set (f n) = {}"
    using Suc.prems(2) [of _ n] by (fastforce simp: disjoint_iff)
  ultimately show ?case by simp
qed

lemma popcount_conv: "length (filter (\<lambda>j. bv ! j) [0..<length bv]) = length (filter id bv)"
  using rank_conv_count [of "length bv" bv] by (simp add: rank_length)

lemma length_keys_at_depth:
  "length (keys_at_depth t d) = length (filter id (d_outs_refs_ptr t ! d))"
  by (simp add: keys_at_depth_def num_slots_def popcount_conv)

lemma terminal_count_take:
  "d \<le> length outs \<Longrightarrow>
     terminal_count (take d outs) = sum_list (map (\<lambda>d'. length (filter id (outs ! d'))) [0..<d])"
  by (simp add: terminal_count_def take_conv_map_nth comp_def)

lemma length_stored_keys: "length (stored_keys t) = key_count t"
  using terminal_count_take [of "length (d_outs_refs_ptr t)" "d_outs_refs_ptr t"]
  by (simp add: stored_keys_def key_count_def length_concat comp_def length_keys_at_depth)

lemma set_keys_at_depth:
  "set (keys_at_depth t d) = {key_of_slot t d j | j. j < num_slots t d \<and> d_outs_refs_ptr t ! d ! j}"
  by (auto simp: keys_at_depth_def)

lemma set_stored_keys:
  "set (stored_keys t) =
     {key_of_slot t d j | d j. d < length (d_outs_refs_ptr t) \<and> j < num_slots t d \<and>
        d_outs_refs_ptr t ! d ! j}"
  by (fastforce simp: stored_keys_def set_keys_at_depth)

lemma stored_keys_nth:
  assumes "d < length (d_outs_refs_ptr t)" "j < num_slots t d" "d_outs_refs_ptr t ! d ! j"
  shows "stored_keys t ! (terminal_count (take d (d_outs_refs_ptr t)) + rank (d_outs_refs_ptr t ! d) j)
           = key_of_slot t d j"
    and "terminal_count (take d (d_outs_refs_ptr t)) + rank (d_outs_refs_ptr t ! d) j < key_count t"
proof -
  let ?outs = "d_outs_refs_ptr t" and ?xss = "map (keys_at_depth t) [0..<length (d_outs_refs_ptr t)]"
  let ?r = "rank (?outs ! d) j"
  have jl: "j < length (?outs ! d)" using assms(2) by (simp add: num_slots_def)
  note sp = set_positions_rank [OF jl assms(3)]
  have d: "d < length ?xss" using assms(1) by simp
  have r: "?r < length (?xss ! d)"
    using sp(1) assms(1) by (simp add: length_keys_at_depth length_set_positions)
  have off: "sum_list (map length (take d ?xss)) = terminal_count (take d ?outs)"
    using assms(1) terminal_count_take [of d ?outs]
    by (simp add: take_map comp_def length_keys_at_depth)
  have "?xss ! d ! ?r = key_of_slot t d j"
    using sp assms(1) by (simp add: keys_at_depth_def num_slots_def set_positions_def)
  then show "stored_keys t ! (terminal_count (take d ?outs) + ?r) = key_of_slot t d j"
    using concat_nth_offset(1) [OF d r] off by (simp add: stored_keys_def)
  show "terminal_count (take d ?outs) + ?r < key_count t"
    using concat_nth_offset(2) [OF d r] off length_stored_keys [of t] by (simp add: stored_keys_def)
qed

lemma key_of_slot_inj:
  assumes "wf_trie t" "d < length (d_levels_ptr t)" "j < num_slots t d" "j' < num_slots t d"
    and "key_of_slot t d j = key_of_slot t d j'"
  shows "j = j'"
proof -
  have "Some j = walk t 0 0 (key_of_slot t d j)"
    using walk_key_of_slot [OF assms(1,2,3)] by simp
  also have "\<dots> = walk t 0 0 (key_of_slot t d j')" by (simp only: assms(5))
  also have "\<dots> = Some j'" by (rule walk_key_of_slot [OF assms(1,2,4)])
  finally show ?thesis by simp
qed

lemma distinct_keys_at_depth:
  assumes "wf_trie t" "d < length (d_levels_ptr t)"
  shows "distinct (keys_at_depth t d)"
proof -
  have "inj_on (key_of_slot t d) (set (filter (\<lambda>j. d_outs_refs_ptr t ! d ! j) [0..<num_slots t d]))"
    by (rule inj_onI) (use key_of_slot_inj [OF assms] in simp)
  then show ?thesis by (simp add: keys_at_depth_def distinct_map)
qed

lemma distinct_stored_keys:
  assumes "wf_trie t"
  shows "distinct (stored_keys t)"
  unfolding stored_keys_def
proof (rule distinct_concat_upt)
  fix d assume "d < length (d_outs_refs_ptr t)"
  then show "distinct (keys_at_depth t d)"
    using distinct_keys_at_depth [OF assms, of d] wf_trie_lengths(4) [OF assms] by simp
next
  fix d d' :: nat assume "d < d'"
  then show "set (keys_at_depth t d) \<inter> set (keys_at_depth t d') = {}"
    by (auto simp: set_keys_at_depth) (metis length_key_of_slot less_irrefl)
qed

lemma wf_rank_bound:
  assumes wf: "wf_trie t" and d: "d < length (d_levels_ptr t)"
    and j: "j < num_slots t d" "d_outs_refs_ptr t ! d ! j"
  shows "offset (d_levels_ptr t ! d) + rank (d_outs_refs_ptr t ! d) j < key_count t"
    and "stored_keys t ! (offset (d_levels_ptr t ! d) + rank (d_outs_refs_ptr t ! d) j)
           = key_of_slot t d j"
  using stored_keys_nth [of d t j] wf_trie_level(2) [OF wf d] wf_trie_lengths(4) [OF wf] d j
  by simp_all

lemma stored_key_iff_walk:
  assumes wf: "wf_trie t"
  shows "key \<in> set (stored_keys t) \<longleftrightarrow>
           length key < length (d_levels_ptr t) \<and>
           (\<exists>j. walk t 0 0 key = Some j \<and> d_outs_refs_ptr t ! length key ! j)"
proof
  note ln = wf_trie_lengths [OF wf]
  assume "key \<in> set (stored_keys t)"
  then obtain d j where dj: "d < length (d_outs_refs_ptr t)" "j < num_slots t d"
    "d_outs_refs_ptr t ! d ! j" and k: "key = key_of_slot t d j"
    by (auto simp: set_stored_keys)
  have l: "length key = d" using k by (simp add: length_key_of_slot)
  have "walk t 0 0 key = Some j"
    using walk_key_of_slot [OF wf, of d j] dj ln(4) k by simp
  then show "length key < length (d_levels_ptr t) \<and>
           (\<exists>j. walk t 0 0 key = Some j \<and> d_outs_refs_ptr t ! length key ! j)"
    using dj ln(4) l by auto
next
  note ln = wf_trie_lengths [OF wf]
  assume a: "length key < length (d_levels_ptr t) \<and>
           (\<exists>j. walk t 0 0 key = Some j \<and> d_outs_refs_ptr t ! length key ! j)"
  then obtain j where w: "walk t 0 0 key = Some j" and tb: "d_outs_refs_ptr t ! length key ! j"
    by blast
  have "j < num_slots t (length key)" "key_of_slot t (length key) j = key"
    using walk_SomeD [OF w] ln(5) by simp_all
  then have "\<exists>d j. key = key_of_slot t d j \<and> d < length (d_outs_refs_ptr t) \<and> j < num_slots t d \<and>
      d_outs_refs_ptr t ! d ! j"
    using a tb ln(4) by (rule_tac x = "length key" in exI, rule_tac x = j in exI) simp
  then show "key \<in> set (stored_keys t)" by (simp add: set_stored_keys)
qed

lemma empty_key_stored_iff:
  assumes wf: "well_formed t"
  shows "[] \<in> set (stored_keys t) \<longleftrightarrow> d_outs_refs_ptr t ! 0 ! 0"
proof
  note ln = well_formed_lengths [OF wf]
  assume "[] \<in> set (stored_keys t)"
  then obtain d j where dj: "d < length (d_outs_refs_ptr t)" "j < num_slots t d"
    "d_outs_refs_ptr t ! d ! j" and k: "[] = key_of_slot t d j"
    by (auto simp: set_stored_keys)
  have "d = 0" using length_key_of_slot [of t d j] k by simp
  then show "d_outs_refs_ptr t ! 0 ! 0" using dj ln(4) by simp
next
  note ln = well_formed_lengths [OF wf]
  assume "d_outs_refs_ptr t ! 0 ! 0"
  then have "\<exists>d j. [] = key_of_slot t d j \<and> d < length (d_outs_refs_ptr t) \<and> j < num_slots t d \<and>
      d_outs_refs_ptr t ! d ! j"
    using ln by (rule_tac x = 0 in exI, rule_tac x = 0 in exI) simp
  then show "[] \<in> set (stored_keys t)" by (simp add: set_stored_keys)
qed

subsection \<open>The rank of a stored key\<close>

lemma lookup_key_stored:
  assumes wf: "wf_trie t" and d: "d < length (d_levels_ptr t)"
    and j: "j < num_slots t d" "d_outs_refs_ptr t ! d ! j"
  shows "lookup_key t (key_of_slot t d j) (of_nat (length (key_of_slot t d j)))
           = Some (Inr (of_nat (offset (d_levels_ptr t ! d) + rank (d_outs_refs_ptr t ! d) j)))"
proof -
  have l: "length (key_of_slot t d j) = d" by (rule length_key_of_slot)
  have w: "walk t 0 0 (key_of_slot t d j) = Some j" by (rule walk_key_of_slot [OF wf d j(1)])
  show ?thesis
    using lookup_key_walk [OF wf, of "key_of_slot t d j"] d j(2) w by (simp add: l)
qed

lemma lookup_key_nth:
  assumes wf: "wf_trie t" and r: "r < key_count t"
  shows "lookup_key t (stored_keys t ! r) (of_nat (length (stored_keys t ! r)))
           = Some (Inr (of_nat r))"
proof -
  note ln = wf_trie_lengths [OF wf]
  have rl: "r < length (stored_keys t)" using r by (simp add: length_stored_keys)
  then have "stored_keys t ! r \<in> set (stored_keys t)" by (rule nth_mem)
  then obtain d j where dj: "d < length (d_outs_refs_ptr t)" "j < num_slots t d"
    "d_outs_refs_ptr t ! d ! j" and k: "stored_keys t ! r = key_of_slot t d j"
    by (auto simp: set_stored_keys)
  have d: "d < length (d_levels_ptr t)" using dj(1) ln(4) by simp
  let ?r = "offset (d_levels_ptr t ! d) + rank (d_outs_refs_ptr t ! d) j"
  note rb = wf_rank_bound [OF wf d dj(2,3)]
  have "stored_keys t ! ?r = stored_keys t ! r" using rb(2) k by simp
  moreover have "?r < length (stored_keys t)" using rb(1) by (simp add: length_stored_keys)
  ultimately have "?r = r"
    using distinct_stored_keys [OF wf] rl by (simp add: nth_eq_iff_index_eq)
  then show ?thesis using lookup_key_stored [OF wf d dj(2,3)] k by simp
qed

subsection \<open>The sentinel\<close>

lemma unat_NOT_FOUND: "unat NOT_FOUND = 2 ^ 64 - 1"
  by (simp add: NOT_FOUND_def unsigned_minus_1_eq_mask mask_eq_exp_minus_1)

lemma of_nat64_neq_NOT_FOUND:
  assumes "r < 2 ^ 64 - 1"
  shows "(of_nat r :: 64 word) \<noteq> NOT_FOUND"
proof
  assume "(of_nat r :: 64 word) = NOT_FOUND"
  then have "unat (of_nat r :: 64 word) = unat (- 1 :: 64 word)" by (simp add: NOT_FOUND_def)
  moreover have "unat (of_nat r :: 64 word) = r" using assms by (simp add: unat_of_nat64)
  moreover have "unat (- 1 :: 64 word) = 2 ^ 64 - 1"
    by (simp add: unsigned_minus_1_eq_mask mask_eq_exp_minus_1)
  ultimately show False using assms by simp
qed

subsection \<open>Present and absent keys\<close>

lemma lookup_key_present:
  assumes wf: "wf_trie t" and mem: "key \<in> set (stored_keys t)"
  shows "\<exists>r < key_count t.
           lookup_key t key (of_nat (length key)) = Some (Inr (of_nat r)) \<and>
           unat (of_nat r :: 64 word) = r \<and> (of_nat r :: 64 word) \<noteq> NOT_FOUND"
proof -
  note ln = wf_trie_lengths [OF wf]
  obtain r where r: "r < length (stored_keys t)" "stored_keys t ! r = key"
    using mem by (auto simp: in_set_conv_nth)
  then have rk: "r < key_count t" by (simp add: length_stored_keys)
  have r64: "r < 2 ^ 64 - 1" using rk ln(6) by simp
  have "lookup_key t key (of_nat (length key)) = Some (Inr (of_nat r))"
    using lookup_key_nth [OF wf rk] r(2) by simp
  moreover have "unat (of_nat r :: 64 word) = r" using r64 by (simp add: unat_of_nat64)
  moreover have "(of_nat r :: 64 word) \<noteq> NOT_FOUND" by (rule of_nat64_neq_NOT_FOUND [OF r64])
  ultimately show ?thesis using rk by blast
qed

lemma lookup_key_absent:
  assumes wf: "wf_trie t" and len: "length key < length (d_levels_ptr t)"
    and nmem: "key \<notin> set (stored_keys t)"
  shows "lookup_key t key (of_nat (length key)) = Some (Inr NOT_FOUND)"
  using lookup_key_walk [OF wf len] stored_key_iff_walk [OF wf, of key] len nmem
  by (auto split: option.splits)

lemma long_key_not_stored:
  assumes wf: "wf_trie t" and long: "length (d_levels_ptr t) \<le> length key"
  shows "key \<notin> set (stored_keys t)"
  using stored_key_iff_walk [OF wf, of key] long by simp

lemma lookup_key_absent_empty_level:
  assumes wf: "wf_trie t" and empty: "num_slots t (length (d_levels_ptr t) - 1) = 0"
    and k64: "length key < 2 ^ 64" and nmem: "key \<notin> set (stored_keys t)"
  shows "lookup_key t key (of_nat (length key)) = Some (Inr NOT_FOUND)"
proof (cases "length key < length (d_levels_ptr t)")
  case True
  then show ?thesis by (rule lookup_key_absent [OF wf _ nmem])
next
  case False
  then have long: "length (d_levels_ptr t) \<le> length key" by simp
  have "walk t 0 0 (take (length (d_levels_ptr t) - 1) key) = None"
    using walk_None_empty_level [OF wf empty] long by simp
  then show ?thesis using lookup_key_long_key [OF wf long k64] by simp
qed

lemma lookup_key_outcome:
  assumes wf: "wf_trie t"
    and len: "length key < length (d_levels_ptr t) \<or>
              num_slots t (length (d_levels_ptr t) - 1) = 0 \<and> length key < 2 ^ 64"
  shows "\<exists>v. lookup_key t key (of_nat (length key)) = Some (Inr v) \<and>
           (v = NOT_FOUND \<or> unat v < key_count t) \<and> key_count t \<le> unat NOT_FOUND"
proof -
  have kc: "key_count t \<le> unat NOT_FOUND"
    using wf_trie_lengths(6) [OF wf] by (simp add: unat_NOT_FOUND)
  show ?thesis
  proof (cases "key \<in> set (stored_keys t)")
    case True
    then show ?thesis using lookup_key_present [OF wf True] kc by auto
  next
    case False
    have "lookup_key t key (of_nat (length key)) = Some (Inr NOT_FOUND)"
      using len lookup_key_absent [OF wf _ False] lookup_key_absent_empty_level [OF wf _ _ False]
      by blast
    then show ?thesis using kc by simp
  qed
qed

section \<open>Single steps of the lookup\<close>

subsection \<open>The exits of the loop\<close>

lemma lookup_loop_empty: "lookup_loop t key 0 1 0 = Some (Inr (Completed 0))"
  by (subst lookup_loop.simps) simp


lemma lookup_loop_Returned_aux:
  assumes "lookup_loop t key len cur_depth node_id = Some r"
  shows "\<forall>v. r = Inr (Returned v) \<longrightarrow> v = NOT_FOUND"
  apply (rule lookup_loop.raw_induct
      [where P = "\<lambda>_ _ _ _ _ r. \<forall>v. r = Inr (Returned v) \<longrightarrow> v = NOT_FOUND", OF _ assms])
  subgoal premises p for f t key len cur_depth node_id r
  proof (intro allI impI)
    fix v assume r: "r = Inr (Returned v)"
    show "v = NOT_FOUND"
    proof (cases "search_label_in_children t (key ! unat (cur_depth - 1)) node_id cur_depth")
      case None
      then show ?thesis using p(2) r by (simp split: if_splits)
    next
      case (Some s)
      show ?thesis
      proof (cases s)
        case (Inl e)
        then show ?thesis using p(2) r Some by (simp split: if_splits)
      next
        case (Inr q)
        obtain found node_id' where q: "q = (found, node_id')" by (cases q)
        show ?thesis
        proof (cases found)
          case True
          then have "f t key len (cur_depth + 1) node_id' = Some r"
            using p(2) r Some Inr q by (simp split: if_splits)
          then show ?thesis using p(1) r by blast
        next
          case False
          then show ?thesis using p(2) r Some Inr q by (simp split: if_splits)
        qed
      qed
    qed
  qed
  done

lemma lookup_loop_Returned:
  "lookup_loop t key len cur_depth node_id = Some (Inr (Returned v)) \<Longrightarrow> v = NOT_FOUND"
  using lookup_loop_Returned_aux [of t key len cur_depth node_id "Inr (Returned v)"] by simp


lemma lookup_key_Completed:
  assumes "lookup_loop t key len 1 0 = Some (Inr (Completed node_id))"
    and "unat len < length (d_outs_refs_ptr t)"
  shows "lookup_key t key len =
           (case get (d_outs_refs_ptr t ! unat len) (unat node_id) of
              Inl e \<Rightarrow> Some (Inl e)
            | Inr b \<Rightarrow>
                if \<not> b then Some (Inr NOT_FOUND)
                else if unat len < length (d_levels_ptr t) then
                  Some (Inr (of_nat (offset (d_levels_ptr t ! unat len)
                                     + rank (d_outs_refs_ptr t ! unat len) (unat node_id))))
                else Some (Inl OutOfBounds))"
  using assms by (simp add: lookup_key_def)

subsection \<open>Empty ranges\<close>



subsection \<open>Reads past the arrays\<close>




section \<open>Reads of the arrays without the bounds on the slots\<close>

text \<open>
  The midpoint \<^verbatim>\<open>(begin + end) / 2\<close> of 32 bits is below \<open>2\<^sup>3\<^sup>1\<close>, and so is every node
  that a search has found. For such a node either the bit positions of its block fit 32
  bits, and the child range is the one of the data model, or the depth of the children has
  \<open>2\<^sup>3\<^sup>1\<close> slots or more, above every midpoint. In a well-formed view with fewer than
  \<open>2\<^sup>3\<^sup>2\<close> depths the lookup with a length below the number of depths therefore reads
  nothing out of bounds, whether it returns or not.
\<close>

subsection \<open>The child range of a node below \<open>2\<^sup>3\<^sup>1\<close>\<close>





subsection \<open>The binary search below an end within the labels\<close>

lemma half_word_bound:
  fixes x :: "32 word"
  shows "unat (x div 2) < 2 ^ 31" and "x div 2 + 1 \<le> 2 ^ 31"
    and "unat (x div 2 + 1) = unat (x div 2) + 1"
proof -
  have "unat x < 2 ^ 32" using unsigned_less [of x] by simp
  then show h: "unat (x div 2) < 2 ^ 31" by (simp add: unat_div)
  then show s: "unat (x div 2 + 1) = unat (x div 2) + 1"
    by (simp add: unat_word_ariths)
  show "x div 2 + 1 \<le> 2 ^ 31"
    using h by (simp add: word_le_nat_alt s)
qed


subsection \<open>The loop and the final reads\<close>




section \<open>Views beyond the index bounds\<close>

subsection \<open>Bit sequences made of blocks\<close>

lemma set_positions_append:
  "set_positions (xs @ ys) = set_positions xs @ map (\<lambda>p. length xs + p) (set_positions ys)"
proof -
  have a: "filter (\<lambda>p. (xs @ ys) ! p) [0..<length xs] = filter (\<lambda>p. xs ! p) [0..<length xs]"
    by (rule filter_cong) (simp_all add: nth_append)
  have "[length xs..<length xs + length ys] = map (\<lambda>p. length xs + p) [0..<length ys]"
    using map_add_upt [of "length xs" "length ys"] by (simp add: add.commute)
  then have b: "filter (\<lambda>p. (xs @ ys) ! p) [length xs..<length xs + length ys]
      = map (\<lambda>p. length xs + p) (filter (\<lambda>p. ys ! p) [0..<length ys])"
    by (simp add: filter_map comp_def)
  have "[0..<length xs + length ys] = [0..<length xs] @ [length xs..<length xs + length ys]"
    using upt_add_eq_append [of 0 "length xs" "length ys"] by simp
  then show ?thesis by (simp add: set_positions_def a b)
qed

lemma set_positions_replicate_False: "set_positions (replicate n False) = []"
  by (simp add: set_positions_def filter_empty_conv)





subsection \<open>The view with a block that starts at position \<open>2\<^sup>3\<^sup>2\<close>\<close>







lemma labels_ok_upt: "labels_ok louds [a..<b]"
  by (simp add: labels_ok_def)

lemma louds_ok_fan: "louds_ok (replicate n False @ [True]) 1 n"
  by (simp add: louds_ok_def)




subsection \<open>The view with a child range above \<open>2\<^sup>3\<^sup>1\<close>\<close>

lemma set_positions_lopsided: "set_positions lopsided_louds = [2 ^ 31, 2 ^ 31 + 3]"
proof -
  have "set_positions [True, False, False, True] = [0, 3]" by code_simp
  then show ?thesis
    by (simp add: lopsided_louds_def set_positions_append set_positions_replicate_False)
qed

lemma louds_ok_lopsided: "louds_ok lopsided_louds 2 (2 ^ 31 + 2)"
  by (simp add: louds_ok_def lopsided_louds_def)

lemma lopsided_ranges:
  "child_begin lopsided_louds 0 = 0" "child_end lopsided_louds 0 = 2 ^ 31"
  "child_begin lopsided_louds 1 = 2 ^ 31" "child_end lopsided_louds 1 = 2 ^ 31 + 2"
  by (simp_all add: child_begin_def child_end_def block_start_def set_positions_lopsided)

lemma length_lopsided_labels: "length lopsided_labels = 2 ^ 31 + 2"
  by (simp add: lopsided_labels_def)

lemma lopsided_labels_nth:
  "j < 2 ^ 31 \<Longrightarrow> lopsided_labels ! j = 10 + j"
  "lopsided_labels ! (2 ^ 31) = 1" "lopsided_labels ! (2 ^ 31 + 1) = 2"
  by (simp_all add: lopsided_labels_def nth_append)

lemma parent_of_lopsided:
  "j < 2 ^ 31 \<Longrightarrow> parent_of lopsided_louds j = 0"
  "parent_of lopsided_louds (2 ^ 31) = 1" "parent_of lopsided_louds (2 ^ 31 + 1) = 1"
proof -
  show "j < 2 ^ 31 \<Longrightarrow> parent_of lopsided_louds j = 0"
    using parent_of_unique(1) [OF louds_ok_lopsided, of 0 j] lopsided_ranges(1,2) by simp
  show "parent_of lopsided_louds (2 ^ 31) = 1"
    using parent_of_unique(1) [OF louds_ok_lopsided, of 1 "2 ^ 31"] lopsided_ranges(3,4) by simp
  show "parent_of lopsided_louds (2 ^ 31 + 1) = 1"
    using parent_of_unique(1) [OF louds_ok_lopsided, of 1 "2 ^ 31 + 1"] lopsided_ranges(3,4)
    by simp
qed

lemma labels_ok_lopsided: "labels_ok lopsided_louds lopsided_labels"
  unfolding labels_ok_def
proof (intro ballI impI)
  fix j' j assume j': "j' \<in> {0..<length lopsided_labels}" and j: "j \<in> {0..<j'}"
    and p: "parent_of lopsided_louds j = parent_of lopsided_louds j'"
  have lt: "j < j'" "j' < 2 ^ 31 + 2" using j j' by (simp_all add: length_lopsided_labels)
  consider "j' < 2 ^ 31" | "j < 2 ^ 31" "j' = 2 ^ 31 \<or> j' = 2 ^ 31 + 1"
    | "j = 2 ^ 31" "j' = 2 ^ 31 + 1"
    using lt by linarith
  then show "lopsided_labels ! j < lopsided_labels ! j'"
  proof cases
    case 1
    then show ?thesis using lt(1) by (simp add: lopsided_labels_nth(1))
  next
    case 2
    then have "parent_of lopsided_louds j = 0" "parent_of lopsided_louds j' = 1"
      using parent_of_lopsided by auto
    then show ?thesis using p by simp
  next
    case 3
    then show ?thesis using lopsided_labels_nth(2,3) by simp
  qed
qed

lemma well_formed_lopsided: "well_formed lopsided_trie"
  unfolding well_formed_def
proof (intro conjI)
  show "\<forall>d\<in>{0..<length (d_levels_ptr lopsided_trie)}.
       offset (d_levels_ptr lopsided_trie ! d)
         = terminal_count (take d (d_outs_refs_ptr lopsided_trie))"
    by (simp add: ball_upt_conv lopsided_trie_def terminal_count_def)
  have "louds_ok [False, False, True] (Suc 0) (Suc (Suc 0))"
    "labels_ok [False, False, True] [0 :: nat, 1]"
    by code_simp+
  moreover have "louds_ok lopsided_louds (Suc (Suc 0)) (2 ^ 31 + 2)"
    using louds_ok_lopsided by (simp add: numeral_2_eq_2)
  ultimately show "\<forall>d\<in>{1..<length (d_levels_ptr lopsided_trie)}.
       length (d_labels_ptr (d_levels_ptr lopsided_trie ! d)) = num_slots lopsided_trie d \<and>
       louds_ok (d_louds_refs_ptr lopsided_trie ! d) (num_slots lopsided_trie (d - 1))
         (num_slots lopsided_trie d) \<and>
       labels_ok (d_louds_refs_ptr lopsided_trie ! d)
         (d_labels_ptr (d_levels_ptr lopsided_trie ! d))"
    using labels_ok_lopsided
    by (simp add: ball_upt_conv lopsided_trie_def num_slots_def length_lopsided_labels)
qed (simp_all add: lopsided_trie_def num_slots_def)


lemma get_last_child_position_lopsided:
  "get_last_child_position lopsided_louds 1 = Inr (2 ^ 31 + 2, 2 ^ 31)"
proof -
  have s: "select lopsided_louds 0 = Inr (2 ^ 31)"
    by (simp add: select_def set_positions_lopsided)
  have f: "find_next_set lopsided_louds (2 ^ 31 + 1) = Inr (2 ^ 31 + 3)"
    by (simp add: find_next_set_def set_positions_lopsided)
  have u: "unat (of_nat (2 ^ 31 + 1) :: 32 word) = 2 ^ 31 + 1" by simp
  show ?thesis
    unfolding get_last_child_position_def
    using s f u by (simp del: of_nat_add of_nat_Suc)
qed

lemma binary_search_lopsided:
  assumes "c < 11"
  shows "binary_search lopsided_labels c (2 ^ 31) (2 ^ 31 + 2) nid = Some (Inr (2 ^ 31, 1, 1))"
proof -
  have mid: "((2 ^ 31 :: 32 word) + (2 ^ 31 + 2)) div 2 = 1" by simp
  have lab: "lopsided_labels ! unat (1 :: 32 word) = 11"
    using lopsided_labels_nth(1) [of 1] by simp
  have stop: "binary_search lopsided_labels c (2 ^ 31) 1 1 = Some (Inr (2 ^ 31, 1, 1))"
    by (subst binary_search.simps) simp
  have lt: "(2 ^ 31 :: 32 word) < 2 ^ 31 + 2" by simp
  have len: "unat (1 :: 32 word) < length lopsided_labels"
    by (simp add: length_lopsided_labels)
  show ?thesis
    by (subst binary_search.simps) (simp only: lt mid len lab assms stop Let_def if_True)
qed

lemma search_label_in_children_lopsided:
  assumes "c < 11"
  shows "search_label_in_children lopsided_trie c 1 2 = Some (Inr (False, 1))"
proof -
  have l: "d_louds_refs_ptr lopsided_trie ! unat (2 :: 32 word) = lopsided_louds"
    "d_labels_ptr (d_levels_ptr lopsided_trie ! unat (2 :: 32 word)) = lopsided_labels"
    "unat (2 :: 32 word) < length (d_louds_refs_ptr lopsided_trie)"
    "unat (2 :: 32 word) < length (d_levels_ptr lopsided_trie)"
    by (simp_all add: lopsided_trie_def)
  have n: "\<not> (2 ^ 31 :: 32 word) < 1" by simp
  show ?thesis
    unfolding search_label_in_children_def
    by (simp only: l get_last_child_position_lopsided binary_search_lopsided [OF assms] n
        if_True sum.case prod.case option.case)
qed

lemma search_label_in_children_lopsided_root:
  "search_label_in_children lopsided_trie 1 0 1 = Some (Inr (True, 1))"
proof -
  have l: "d_louds_refs_ptr lopsided_trie ! unat (1 :: 32 word) = [False, False, True]"
    "d_labels_ptr (d_levels_ptr lopsided_trie ! unat (1 :: 32 word)) = [0, 1]"
    "unat (1 :: 32 word) < length (d_louds_refs_ptr lopsided_trie)"
    "unat (1 :: 32 word) < length (d_levels_ptr lopsided_trie)"
    by (simp_all add: lopsided_trie_def)
  have g: "get_last_child_position [False, False, True] 0 = Inr (2, 0)" by code_simp
  have b: "binary_search [0, 1 :: nat] 1 0 2 0 = Some (Inr (0, 2, 1))" by code_simp
  have n: "(0 :: 32 word) < 2" by simp
  show ?thesis
    unfolding search_label_in_children_def
    by (simp only: l g b n if_True sum.case prod.case option.case)
qed

lemma lookup_key_lopsided:
  assumes "c < 11"
  shows "lookup_key lopsided_trie [1, c] 2 = Some (Inr NOT_FOUND)"
proof -
  have second: "lookup_loop lopsided_trie [1, c] 2 2 1 = Some (Inr (Returned NOT_FOUND))"
    using search_label_in_children_lopsided [OF assms]
    by (subst lookup_loop.simps) simp
  have "lookup_loop lopsided_trie [1, c] 2 1 0 = Some (Inr (Returned NOT_FOUND))"
    using search_label_in_children_lopsided_root second
    by (subst lookup_loop.simps) simp
  then show ?thesis by (simp add: lookup_key_def)
qed

lemma key_of_slot_lopsided:
  "key_of_slot lopsided_trie 2 (2 ^ 31) = [1, 1]"
  "key_of_slot lopsided_trie 2 (2 ^ 31 + 1) = [1, 2]"
proof -
  have two: "key_of_slot lopsided_trie 2 = key_of_slot lopsided_trie (Suc (Suc 0))"
    by (simp only: numeral_2_eq_2)
  have l: "d_louds_refs_ptr lopsided_trie ! Suc (Suc 0) = lopsided_louds"
    "d_labels_ptr (d_levels_ptr lopsided_trie ! Suc (Suc 0)) = lopsided_labels"
    "d_labels_ptr (d_levels_ptr lopsided_trie ! Suc 0) = [0, 1]"
    by (simp_all add: lopsided_trie_def)
  show "key_of_slot lopsided_trie 2 (2 ^ 31) = [1, 1]"
    unfolding two using parent_of_lopsided(2) lopsided_labels_nth(2) by (simp add: l)
  show "key_of_slot lopsided_trie 2 (2 ^ 31 + 1) = [1, 2]"
    unfolding two using parent_of_lopsided(3) lopsided_labels_nth(3) by (simp add: l)
qed

lemma stored_keys_lopsided:
  "[1, 1] \<in> set (stored_keys lopsided_trie)" "[1, 2] \<in> set (stored_keys lopsided_trie)"
proof -
  have l: "2 < length (d_outs_refs_ptr lopsided_trie)"
    "num_slots lopsided_trie 2 = 2 ^ 31 + 2"
    "d_outs_refs_ptr lopsided_trie ! 2 = replicate (2 ^ 31 + 2) True"
    by (simp_all add: lopsided_trie_def num_slots_def)
  have a: "2 ^ 31 < num_slots lopsided_trie 2 \<and> d_outs_refs_ptr lopsided_trie ! 2 ! (2 ^ 31)"
    unfolding l by simp
  have b: "2 ^ 31 + 1 < num_slots lopsided_trie 2 \<and>
      d_outs_refs_ptr lopsided_trie ! 2 ! (2 ^ 31 + 1)"
    unfolding l by simp
  show "[1, 1] \<in> set (stored_keys lopsided_trie)"
    unfolding set_stored_keys mem_Collect_eq
    using l(1) a key_of_slot_lopsided(1) [symmetric] by blast
  show "[1, 2] \<in> set (stored_keys lopsided_trie)"
    unfolding set_stored_keys mem_Collect_eq
    using l(1) b key_of_slot_lopsided(2) [symmetric] by blast
qed


subsection \<open>The view with \<open>2\<^sup>3\<^sup>2 - 1\<close> children of the root\<close>

text \<open>
  Whatever \<^verbatim>\<open>begin\<close> is, the midpoint \<^verbatim>\<open>(begin + end) / 2\<close> of 32 bits is below
  \<open>2\<^sup>3\<^sup>1\<close>. In the search for a symbol from \<open>2\<^sup>3\<^sup>1\<close> on, the label at the midpoint is
  therefore always smaller, \<^verbatim>\<open>begin\<close> becomes the midpoint plus one, at most \<open>2\<^sup>3\<^sup>1\<close>, and
  \<^verbatim>\<open>end\<close> stays \<open>2\<^sup>3\<^sup>2 - 1\<close>: the loop has no exit.
\<close>

lemma binary_search_fan_diverges:
  assumes r: "binary_search labels c b e nid = Some r"
  shows "\<not> (labels = [0..<2 ^ 32 - 1] \<and> 2 ^ 31 \<le> c \<and> b \<le> 2 ^ 31 \<and> unat e = 2 ^ 32 - 1)"
  apply (rule binary_search.raw_induct
      [where P = "\<lambda>labels c b e nid r.
         \<not> (labels = [0..<2 ^ 32 - 1] \<and> 2 ^ 31 \<le> (c :: nat) \<and> b \<le> 2 ^ 31 \<and> unat e = 2 ^ 32 - 1)", OF _ r])
  subgoal premises p for f labels c b e nid r
  proof
    assume inv: "labels = [0..<2 ^ 32 - 1] \<and> 2 ^ 31 \<le> c \<and> b \<le> 2 ^ 31 \<and> unat e = 2 ^ 32 - 1"
    let ?mid = "(b + e) div 2"
    have lt: "b < e" using inv by (simp add: word_less_nat_alt word_le_nat_alt)
    have m: "unat ?mid < 2 ^ 31" by (rule half_word_bound(1))
    then have len: "unat ?mid < length labels" using inv by simp
    then have lab: "labels ! unat ?mid = unat ?mid" using inv by simp
    have up: "\<not> c < labels ! unat ?mid" "labels ! unat ?mid < c"
      using m inv by (simp_all add: lab)
    have "f labels c (?mid + 1) e ?mid = Some r"
      using p(2) lt len up by (simp add: Let_def)
    then have "\<not> (labels = [0..<2 ^ 32 - 1] \<and> 2 ^ 31 \<le> c \<and> ?mid + 1 \<le> 2 ^ 31 \<and> unat e = 2 ^ 32 - 1)"
      by (rule p(1))
    then show False using inv half_word_bound(2) [of "b + e"] by simp
  qed
  done

lemma get_last_child_position_fan:
  "get_last_child_position (replicate (2 ^ 32 - 1) False @ [True]) 0 = Inr (- 1, 0)"
proof -
  have "set_positions [True] = [0]" by code_simp
  then have "set_positions (replicate (2 ^ 32 - 1) False @ [True]) = [2 ^ 32 - 1]"
    by (simp add: set_positions_append set_positions_replicate_False)
  then have f: "find_next_set (replicate (2 ^ 32 - 1) False @ [True]) 0 = Inr (2 ^ 32 - 1)"
    by (simp add: find_next_set_def)
  show ?thesis
    unfolding get_last_child_position_def using f by simp
qed

lemma search_label_in_children_fan:
  assumes "2 ^ 31 \<le> c"
  shows "search_label_in_children fan_trie c 0 1 = None"
proof -
  have l: "d_louds_refs_ptr fan_trie ! unat (1 :: 32 word) = replicate (2 ^ 32 - 1) False @ [True]"
    "d_labels_ptr (d_levels_ptr fan_trie ! unat (1 :: 32 word)) = [0..<2 ^ 32 - 1]"
    "unat (1 :: 32 word) < length (d_louds_refs_ptr fan_trie)"
    "unat (1 :: 32 word) < length (d_levels_ptr fan_trie)"
    by (simp_all add: fan_trie_def)
  have u: "unat (- 1 :: 32 word) = 2 ^ 32 - 1"
    by (simp add: unsigned_minus_1_eq_mask mask_eq_exp_minus_1)
  have b: "binary_search [0..<2 ^ 32 - 1] c 0 (- 1) 0 = None"
  proof (cases "binary_search [0..<2 ^ 32 - 1] c 0 (- 1) 0")
    case (Some r)
    then show ?thesis using binary_search_fan_diverges [OF Some] assms u by simp
  qed simp
  show ?thesis
    unfolding search_label_in_children_def
    by (simp only: l get_last_child_position_fan b if_True sum.case prod.case option.case)
qed

lemma lookup_key_fan:
  assumes "2 ^ 31 \<le> c"
  shows "lookup_key fan_trie [c] 1 = None"
proof -
  have "lookup_loop fan_trie [c] 1 1 0 = None"
    using search_label_in_children_fan [OF assms]
    by (subst lookup_loop.simps) simp
  then show ?thesis by (simp add: lookup_key_def)
qed

lemma well_formed_fan: "well_formed fan_trie"
  unfolding well_formed_def
proof (intro conjI)
  show "\<forall>d\<in>{0..<length (d_levels_ptr fan_trie)}.
       offset (d_levels_ptr fan_trie ! d) = terminal_count (take d (d_outs_refs_ptr fan_trie))"
    by (simp add: ball_upt_conv fan_trie_def terminal_count_def)
  show "\<forall>d\<in>{1..<length (d_levels_ptr fan_trie)}.
       length (d_labels_ptr (d_levels_ptr fan_trie ! d)) = num_slots fan_trie d \<and>
       louds_ok (d_louds_refs_ptr fan_trie ! d) (num_slots fan_trie (d - 1)) (num_slots fan_trie d) \<and>
       labels_ok (d_louds_refs_ptr fan_trie ! d) (d_labels_ptr (d_levels_ptr fan_trie ! d))"
    using louds_ok_fan [of "2 ^ 32 - 1"]
    by (simp add: ball_upt_conv fan_trie_def num_slots_def labels_ok_upt)
qed (simp_all add: fan_trie_def num_slots_def)

lemma stored_key_fan: "[2 ^ 32 - 2] \<in> set (stored_keys fan_trie)"
proof -
  have k: "key_of_slot fan_trie (Suc 0) (2 ^ 32 - 2) = [2 ^ 32 - 2]"
    by (simp add: fan_trie_def)
  have l: "Suc 0 < length (d_outs_refs_ptr fan_trie)"
    "2 ^ 32 - 2 < num_slots fan_trie (Suc 0)"
    "d_outs_refs_ptr fan_trie ! Suc 0 ! (2 ^ 32 - 2)"
    by (simp_all add: fan_trie_def num_slots_def)
  show ?thesis
    unfolding set_stored_keys mem_Collect_eq using l k [symmetric] by blast
qed

subsection \<open>The view with \<open>2\<^sup>3\<^sup>2\<close> depths\<close>

text \<open>
  The loop counter \<^verbatim>\<open>cur_depth\<close> has 32 bits and the length has 64. For a key of
  \<open>2\<^sup>3\<^sup>2 - 1\<close> symbols the counter wraps to 0 after the last symbol, is still not above
  the length, and the next read is \<^verbatim>\<open>key[cur_depth - 1]\<close> at index \<open>2\<^sup>3\<^sup>2 - 1\<close>, past the
  key. When the iterator reaches one symbol more, the loop goes on at depth 0, whose LOUDS
  sequence is empty, and \<open>find_next_set\<close> has no set bit to find.
\<close>

lemma chain_lengths:
  "length (d_levels_ptr chain_trie) = 2 ^ 32" "length (d_louds_refs_ptr chain_trie) = 2 ^ 32"
  "length (d_outs_refs_ptr chain_trie) = 2 ^ 32"
  by (simp_all add: chain_trie_def)

lemma chain_level:
  assumes "0 < k" "k < 2 ^ 32"
  shows "d_louds_refs_ptr chain_trie ! k = [False, True]"
    and "d_labels_ptr (d_levels_ptr chain_trie ! k) = [0]"
    and "offset (d_levels_ptr chain_trie ! k) = 0"
  using assms by (simp_all add: chain_trie_def nth_Cons')

lemma chain_outs:
  "k < 2 ^ 32 - 1 \<Longrightarrow> d_outs_refs_ptr chain_trie ! k = [False]"
  "d_outs_refs_ptr chain_trie ! (2 ^ 32 - 1) = [True]"
  by (simp_all add: chain_trie_def nth_append)

lemma num_slots_chain: "k < 2 ^ 32 \<Longrightarrow> num_slots chain_trie k = 1"
  using chain_outs(1) [of k] chain_outs(2)
  by (cases "k = 2 ^ 32 - 1") (simp_all add: num_slots_def)

lemma terminal_count_chain:
  assumes "k < 2 ^ 32"
  shows "terminal_count (take k (d_outs_refs_ptr chain_trie)) = 0"
  using assms by (simp add: chain_trie_def terminal_count_def)

lemma well_formed_chain: "well_formed chain_trie"
  unfolding well_formed_def
proof (intro conjI ballI)
  show "0 < length (d_levels_ptr chain_trie)" by (simp add: chain_lengths)
  show "length (d_louds_refs_ptr chain_trie) = length (d_levels_ptr chain_trie)"
    by (simp add: chain_lengths)
  show "length (d_outs_refs_ptr chain_trie) = length (d_levels_ptr chain_trie)"
    by (simp add: chain_lengths)
  show "num_slots chain_trie 0 = 1" by (rule num_slots_chain) simp
next
  fix d assume "d \<in> {0..<length (d_levels_ptr chain_trie)}"
  then have d: "d < 2 ^ 32" by (simp add: chain_lengths)
  have "offset (d_levels_ptr chain_trie ! d) = 0"
    using chain_level(3) [of d] d by (cases "d = 0") (simp_all add: chain_trie_def)
  then show "offset (d_levels_ptr chain_trie ! d)
      = terminal_count (take d (d_outs_refs_ptr chain_trie))"
    by (simp add: terminal_count_chain [OF d])
next
  fix d assume "d \<in> {1..<length (d_levels_ptr chain_trie)}"
  then have d: "0 < d" "d < 2 ^ 32" by (simp_all add: chain_lengths)
  then have d1: "d - 1 < 2 ^ 32" by linarith
  have l: "louds_ok [False, True] 1 1" "labels_ok [False, True] [0 :: nat]" by code_simp+
  show "length (d_labels_ptr (d_levels_ptr chain_trie ! d)) = num_slots chain_trie d"
    by (simp add: chain_level(2) [OF d(1,2)] num_slots_chain [OF d(2)])
  show "louds_ok (d_louds_refs_ptr chain_trie ! d) (num_slots chain_trie (d - 1))
      (num_slots chain_trie d)"
    using l(1) num_slots_chain [OF d1]
    by (simp add: chain_level(1) [OF d(1,2)] num_slots_chain [OF d(2)])
  show "labels_ok (d_louds_refs_ptr chain_trie ! d) (d_labels_ptr (d_levels_ptr chain_trie ! d))"
    using l(2) by (simp add: chain_level(1,2) [OF d(1,2)])
qed

lemma search_label_in_children_chain:
  assumes k: "0 < k" "k < 2 ^ 32"
  shows "search_label_in_children chain_trie 0 0 (of_nat k) = Some (Inr (True, 0))"
proof -
  have u: "unat (of_nat k :: 32 word) = k" using k(2) by (rule unat_of_nat32)
  have g: "get_last_child_position [False, True] 0 = Inr (1, 0)" by code_simp
  have b: "binary_search [0 :: nat] 0 0 1 0 = Some (Inr (0, 1, 0))" by code_simp
  have n: "(0 :: 32 word) < 1" by simp
  have l: "k < length (d_louds_refs_ptr chain_trie)" "k < length (d_levels_ptr chain_trie)"
    using k(2) by (simp_all add: chain_lengths)
  show ?thesis
    unfolding search_label_in_children_def u
    by (simp only: l chain_level(1,2) [OF k] g b n if_True sum.case prod.case option.case)
qed

lemma lookup_loop_chain_wrapped:
  "lookup_loop chain_trie (replicate (2 ^ 32 - 1) 0) (of_nat (2 ^ 32 - 1)) 0 0
     = Some (Inl OutOfBounds)"
proof -
  have u: "unat (- 1 :: 32 word) = 2 ^ 32 - 1"
    by (simp add: unsigned_minus_1_eq_mask mask_eq_exp_minus_1)
  show ?thesis
    by (subst lookup_loop.simps) (simp add: u)
qed


lemma lookup_loop_chain_steps:
  assumes m: "2 ^ 32 - 1 \<le> m"
    and w: "lookup_loop chain_trie (replicate m 0) (of_nat (2 ^ 32 - 1)) 0 0 = Some (Inl e)"
    and k: "0 < k" "k \<le> 2 ^ 32 - 1"
  shows "lookup_loop chain_trie (replicate m 0) (of_nat (2 ^ 32 - 1)) (of_nat k) 0
           = Some (Inl e)"
  using k(2,1)
proof (induction k rule: inc_induct)
  case base
  have c: "(ucast (of_nat (2 ^ 32 - 1) :: 32 word) :: 64 word) \<le> of_nat (2 ^ 32 - 1)"
    by simp
  have u: "unat ((of_nat (2 ^ 32 - 1) :: 32 word) - 1) = 2 ^ 32 - 2" by simp
  then have r: "unat ((of_nat (2 ^ 32 - 1) :: 32 word) - 1) < length (replicate m (0 :: nat))"
    "replicate m (0 :: nat) ! unat ((of_nat (2 ^ 32 - 1) :: 32 word) - 1) = 0"
    using m by simp_all
  have s: "search_label_in_children chain_trie 0 0 (of_nat (2 ^ 32 - 1)) = Some (Inr (True, 0))"
    by (rule search_label_in_children_chain) simp_all
  have z: "(of_nat (2 ^ 32 - 1) :: 32 word) + 1 = 0" by simp
  show ?case
    by (subst lookup_loop.simps)
      (simp only: c r s z w if_True option.case sum.case prod.case not_True_eq_False if_False)
next
  case (step k)
  have k: "0 < k" "k < 2 ^ 32" "k < 2 ^ 64" using step.hyps step.prems by simp_all
  have c: "(ucast (of_nat k :: 32 word) :: 64 word) \<le> of_nat (2 ^ 32 - 1)"
    using depth_le_len64_iff [of k "2 ^ 32 - 1"] k(2) step.hyps(2) by simp
  have uk: "unat (of_nat k :: 32 word) = k" by (rule unat_of_nat32 [OF k(2)])
  then have "(of_nat k :: 32 word) \<noteq> 0" using k(1) by auto
  then have "unat (of_nat k - 1 :: 32 word) = k - 1"
    using unat_minus_one [of "of_nat k :: 32 word"] uk by simp
  then have r: "unat (of_nat k - 1 :: 32 word) < length (replicate m (0 :: nat))"
    "replicate m (0 :: nat) ! unat (of_nat k - 1 :: 32 word) = 0"
    using step.hyps(2) m by simp_all
  have s: "search_label_in_children chain_trie 0 0 (of_nat k) = Some (Inr (True, 0))"
    by (rule search_label_in_children_chain [OF k(1,2)])
  have "lookup_loop chain_trie (replicate m 0) (of_nat (2 ^ 32 - 1)) (of_nat (Suc k)) 0
      = Some (Inl e)"
    by (rule step.IH) simp
  then have ih: "lookup_loop chain_trie (replicate m 0) (of_nat (2 ^ 32 - 1))
      (of_nat k + 1) 0 = Some (Inl e)"
    by (simp add: add.commute)
  show ?case
    by (subst lookup_loop.simps)
      (simp only: c r s ih if_True option.case sum.case prod.case not_True_eq_False if_False)
qed

lemma lookup_key_chain:
  "lookup_key chain_trie (replicate (2 ^ 32 - 1) 0) (of_nat (2 ^ 32 - 1)) = Some (Inl OutOfBounds)"
  using lookup_loop_chain_steps [OF _ lookup_loop_chain_wrapped, of 1]
  by (simp add: lookup_key_def)


lemma key_of_slot_chain:
  "d < 2 ^ 32 \<Longrightarrow> key_of_slot chain_trie d 0 = replicate d 0"
proof (induction d)
  case (Suc d)
  have p: "parent_of [False, True] 0 = 0" by code_simp
  have "key_of_slot chain_trie d 0 = replicate d 0" using Suc by simp
  then show ?case
    using chain_level(1,2) [of "Suc d"] Suc.prems
    by (simp add: p replicate_append_same)
qed simp

lemma stored_key_chain: "replicate (2 ^ 32 - 1) 0 \<in> set (stored_keys chain_trie)"
proof -
  have l: "2 ^ 32 - 1 < length (d_outs_refs_ptr chain_trie)"
    "0 < num_slots chain_trie (2 ^ 32 - 1)"
    "d_outs_refs_ptr chain_trie ! (2 ^ 32 - 1) ! 0"
    using num_slots_chain [of "2 ^ 32 - 1"] chain_outs(2) by (simp_all add: chain_lengths)
  have k: "key_of_slot chain_trie (2 ^ 32 - 1) 0 = replicate (2 ^ 32 - 1) 0"
    by (rule key_of_slot_chain) simp
  show ?thesis
    unfolding set_stored_keys mem_Collect_eq using l k [symmetric] by blast
qed

section \<open>The claims\<close>

subsection \<open>Child-range resolution\<close>







subsection \<open>Binary search\<close>




subsection \<open>The rank of a key\<close>

text \<open>
  Claim C6. When the traversal of a key ends at a slot whose terminal bit is set,
  \<^verbatim>\<open>lookup_key\<close> returns \<open>levels[length].offset + terminalBits[length].rank(node_id)\<close>
  for the \<^verbatim>\<open>node_id\<close> the loop has left, which is 0 when the length is 0. In a well-formed
  view within the index bounds that \<^verbatim>\<open>node_id\<close> is the slot the key leads to, and the sum
  is returned without wrapping.
\<close>

theorem lookup_key_rank_formula:
  "(lookup_loop t key len 1 0 = Some (Inr (Completed node_id)) \<and>
    unat len < length (d_outs_refs_ptr t) \<and> unat len < length (d_levels_ptr t) \<and>
    get (d_outs_refs_ptr t ! unat len) (unat node_id) = Inr True \<longrightarrow>
    lookup_key t key len =
      Some (Inr (of_nat (offset (d_levels_ptr t ! unat len)
                         + rank (d_outs_refs_ptr t ! unat len) (unat node_id))))) \<and>
   lookup_loop t key 0 1 0 = Some (Inr (Completed 0)) \<and>
   (wf_trie t \<and> length key < length (d_levels_ptr t) \<and> walk t 0 0 key = Some j \<and>
    d_outs_refs_ptr t ! length key ! j \<longrightarrow>
    lookup_loop t key (of_nat (length key)) 1 0 = Some (Inr (Completed (of_nat j))) \<and>
    (\<exists>v. lookup_key t key (of_nat (length key)) = Some (Inr v) \<and>
         unat v = offset (d_levels_ptr t ! length key)
                  + rank (d_outs_refs_ptr t ! length key) j))"
  (is "(?reach \<longrightarrow> ?result) \<and> ?empty \<and> (?wf \<longrightarrow> ?exact)")
proof (intro conjI)
  show "?reach \<longrightarrow> ?result"
  proof
    assume r: ?reach
    then show ?result using lookup_key_Completed [of t key len node_id] by simp
  qed
  show ?empty by (rule lookup_loop_empty)
  show "?wf \<longrightarrow> ?exact"
  proof
    assume a: ?wf
    then have wf: "wf_trie t" and len: "length key < length (d_levels_ptr t)"
      and w: "walk t 0 0 key = Some j" and tbit: "d_outs_refs_ptr t ! length key ! j"
      by simp_all
    note ln = wf_trie_lengths [OF wf]
    have j: "j < num_slots t (length key)"
      using walk_SomeD(1) [OF w] ln(5) by simp
    have loop: "lookup_loop t key (of_nat (length key)) 1 0 = Some (Inr (Completed (of_nat j)))"
      using lookup_loop_walk [OF wf, of key "[]" key 0] len ln(5) w by simp
    let ?r = "offset (d_levels_ptr t ! length key) + rank (d_outs_refs_ptr t ! length key) j"
    have "?r < key_count t" by (rule wf_rank_bound(1) [OF wf len j tbit])
    then have "?r < 2 ^ 64" using ln(6) by simp
    then have "unat (of_nat ?r :: 64 word) = ?r" by (rule unat_of_nat64)
    moreover have "lookup_key t key (of_nat (length key)) = Some (Inr (of_nat ?r))"
      using lookup_key_walk [OF wf len] w tbit by simp
    ultimately show ?exact using loop by blast
  qed
qed

theorem lookup_key_rank_formula_witness:
  "lookup_loop bush_trie ''cz'' 2 1 0 = Some (Inr (Completed 2)) \<and>
   unat (2 :: 64 word) < length (d_outs_refs_ptr bush_trie) \<and>
   unat (2 :: 64 word) < length (d_levels_ptr bush_trie) \<and>
   get (d_outs_refs_ptr bush_trie ! unat (2 :: 64 word)) (unat (2 :: 32 word)) = Inr True \<and>
   offset (d_levels_ptr bush_trie ! unat (2 :: 64 word)) = 3 \<and>
   rank (d_outs_refs_ptr bush_trie ! unat (2 :: 64 word)) (unat (2 :: 32 word)) = 1 \<and>
   lookup_key bush_trie ''cz'' 2 = Some (Inr 4) \<and>
   wf_trie bush_trie \<and> length ''cz'' < length (d_levels_ptr bush_trie) \<and>
   walk bush_trie 0 0 ''cz'' = Some 2 \<and> d_outs_refs_ptr bush_trie ! length ''cz'' ! 2 \<and>
   (\<exists>v. lookup_key bush_trie ''cz'' (of_nat (length ''cz'')) = Some (Inr v) \<and>
        unat v = offset (d_levels_ptr bush_trie ! length ''cz'')
                 + rank (d_outs_refs_ptr bush_trie ! length ''cz'') 2)"
proof -
  have loop: "lookup_loop bush_trie ''cz'' 2 1 0 = Some (Inr (Completed 2))" by code_simp
  have idx: "unat (2 :: 64 word) < length (d_outs_refs_ptr bush_trie)"
    "unat (2 :: 64 word) < length (d_levels_ptr bush_trie)"
    by (simp_all add: bush_trie_def)
  have bit: "get (d_outs_refs_ptr bush_trie ! unat (2 :: 64 word)) (unat (2 :: 32 word)) = Inr True"
    by (simp add: bush_trie_def get_def)
  have off: "offset (d_levels_ptr bush_trie ! unat (2 :: 64 word)) = 3"
    by (simp add: bush_trie_def)
  have rk: "rank (d_outs_refs_ptr bush_trie ! unat (2 :: 64 word)) (unat (2 :: 32 word)) = 1"
    by (simp add: bush_trie_def rank_def)
  have len: "length ''cz'' < length (d_levels_ptr bush_trie)" by (simp add: bush_trie_def)
  have w: "walk bush_trie 0 0 ''cz'' = Some 2" by code_simp
  have tbit: "d_outs_refs_ptr bush_trie ! length ''cz'' ! 2" by (simp add: bush_trie_def)
  note inst = lookup_key_rank_formula [of bush_trie "''cz''" 2 2 2]
  have v: "lookup_key bush_trie ''cz'' 2 = Some (Inr 4)"
    using inst loop idx bit off rk by simp
  have "\<exists>v. lookup_key bush_trie ''cz'' (of_nat (length ''cz'')) = Some (Inr v) \<and>
        unat v = offset (d_levels_ptr bush_trie ! length ''cz'')
                 + rank (d_outs_refs_ptr bush_trie ! length ''cz'') 2"
    using inst wf_trie_bush len w tbit by blast
  then show ?thesis using loop idx bit off rk v wf_trie_bush len w tbit by blast
qed

subsection \<open>The empty key\<close>

text \<open>
  Claim C8. With length 0 the loop is skipped and leaves \<^verbatim>\<open>node_id = 0\<close>. In a
  well-formed view the empty key is in the build set exactly when the terminal bit of the
  root is set; then \<^verbatim>\<open>lookup_key\<close> returns the rank of the root,
  \<open>levels[0].offset + terminalBits[0].rank(0)\<close>, and otherwise the sentinel.
\<close>

theorem lookup_key_empty_key:
  "lookup_loop t key 0 1 0 = Some (Inr (Completed 0)) \<and>
   (well_formed t \<longrightarrow>
      ([] \<in> set (stored_keys t) \<longleftrightarrow> d_outs_refs_ptr t ! 0 ! 0) \<and>
      ([] \<in> set (stored_keys t) \<longrightarrow>
         lookup_key t key 0 =
           Some (Inr (of_nat (offset (d_levels_ptr t ! 0) + rank (d_outs_refs_ptr t ! 0) 0)))) \<and>
      ([] \<notin> set (stored_keys t) \<longrightarrow> lookup_key t key 0 = Some (Inr NOT_FOUND)))"
proof (rule conjI)
  show loop: "lookup_loop t key 0 1 0 = Some (Inr (Completed 0))" by (rule lookup_loop_empty)
  show "well_formed t \<longrightarrow>
      ([] \<in> set (stored_keys t) \<longleftrightarrow> d_outs_refs_ptr t ! 0 ! 0) \<and>
      ([] \<in> set (stored_keys t) \<longrightarrow>
         lookup_key t key 0 =
           Some (Inr (of_nat (offset (d_levels_ptr t ! 0) + rank (d_outs_refs_ptr t ! 0) 0)))) \<and>
      ([] \<notin> set (stored_keys t) \<longrightarrow> lookup_key t key 0 = Some (Inr NOT_FOUND))"
  proof
    assume wf: "well_formed t"
    note ln = well_formed_lengths [OF wf]
    have g: "get (d_outs_refs_ptr t ! 0) 0 = Inr (d_outs_refs_ptr t ! 0 ! 0)"
      using ln(4) by (simp add: get_def num_slots_def)
    have "lookup_key t key 0 =
        (if \<not> d_outs_refs_ptr t ! 0 ! 0 then Some (Inr NOT_FOUND)
         else Some (Inr (of_nat (offset (d_levels_ptr t ! 0) + rank (d_outs_refs_ptr t ! 0) 0))))"
      using lookup_key_Completed [OF loop] g ln(1,3) by simp
    then show "([] \<in> set (stored_keys t) \<longleftrightarrow> d_outs_refs_ptr t ! 0 ! 0) \<and>
      ([] \<in> set (stored_keys t) \<longrightarrow>
         lookup_key t key 0 =
           Some (Inr (of_nat (offset (d_levels_ptr t ! 0) + rank (d_outs_refs_ptr t ! 0) 0)))) \<and>
      ([] \<notin> set (stored_keys t) \<longrightarrow> lookup_key t key 0 = Some (Inr NOT_FOUND))"
      using empty_key_stored_iff [OF wf] by simp
  qed
qed

theorem lookup_key_empty_key_witness:
  "well_formed bush_trie \<and> [] \<in> set (stored_keys bush_trie) \<and>
   lookup_key bush_trie [] 0 = Some (Inr 0) \<and>
   well_formed ant_trie \<and> [] \<notin> set (stored_keys ant_trie) \<and>
   lookup_key ant_trie [] 0 = Some (Inr NOT_FOUND)"
proof -
  have b: "d_outs_refs_ptr bush_trie ! 0 ! 0" by (simp add: bush_trie_def)
  have a: "\<not> d_outs_refs_ptr ant_trie ! 0 ! 0" by (simp add: ant_trie_def)
  have r: "offset (d_levels_ptr bush_trie ! 0) + rank (d_outs_refs_ptr bush_trie ! 0) 0 = 0"
    by (simp add: bush_trie_def rank_def)
  show ?thesis
    using lookup_key_empty_key [of bush_trie "[]"] lookup_key_empty_key [of ant_trie "[]"]
      wf_trie_well_formed [OF wf_trie_bush] wf_trie_well_formed [OF wf_trie_ant] a b r
    by simp
qed

subsection \<open>Nodes without children\<close>




subsection \<open>Reads within the arrays\<close>




subsection \<open>The outcomes of a lookup\<close>

text \<open>
  Claim C7, amended. For every well-formed view within the index bounds and every key
  shorter than the number of depths, \<^verbatim>\<open>lookup_key\<close> returns a value, which is either a
  rank below the number of stored keys or the sentinel; there is no error and the loops
  end. The same holds for keys of every length when the deepest depth of the view has no
  slots. The sentinel is the largest 64-bit value, \<open>2\<^sup>6\<^sup>4 - 1\<close>, above every rank. Both
  ways to fail give it: every return from inside the loop, where a label is missing, and a
  final slot whose terminal bit is unset; these two hold for every input.
\<close>

theorem lookup_key_outcomes:
  "(wf_trie t \<and> length key < length (d_levels_ptr t) \<longrightarrow>
      (\<exists>v. lookup_key t key (of_nat (length key)) = Some (Inr v) \<and>
           (v = NOT_FOUND \<or> unat v < key_count t) \<and> key_count t \<le> unat NOT_FOUND)) \<and>
   (wf_trie t \<and> num_slots t (length (d_levels_ptr t) - 1) = 0 \<and> length key < 2 ^ 64 \<longrightarrow>
      (\<exists>v. lookup_key t key (of_nat (length key)) = Some (Inr v) \<and>
           (v = NOT_FOUND \<or> unat v < key_count t) \<and> key_count t \<le> unat NOT_FOUND)) \<and>
   (lookup_loop t key len cur_depth node_id = Some (Inr (Returned v')) \<longrightarrow> v' = NOT_FOUND) \<and>
   (lookup_loop t key len 1 0 = Some (Inr (Completed n)) \<and>
    unat len < length (d_outs_refs_ptr t) \<and>
    get (d_outs_refs_ptr t ! unat len) (unat n) = Inr False \<longrightarrow>
      lookup_key t key len = Some (Inr NOT_FOUND)) \<and>
   unat NOT_FOUND = 2 ^ 64 - 1 \<and> (\<forall>w :: 64 word. w \<le> NOT_FOUND)"
proof (intro conjI impI)
  assume "wf_trie t \<and> length key < length (d_levels_ptr t)"
  then show "\<exists>v. lookup_key t key (of_nat (length key)) = Some (Inr v) \<and>
           (v = NOT_FOUND \<or> unat v < key_count t) \<and> key_count t \<le> unat NOT_FOUND"
    using lookup_key_outcome [of t key] by blast
next
  assume "wf_trie t \<and> num_slots t (length (d_levels_ptr t) - 1) = 0 \<and> length key < 2 ^ 64"
  then show "\<exists>v. lookup_key t key (of_nat (length key)) = Some (Inr v) \<and>
           (v = NOT_FOUND \<or> unat v < key_count t) \<and> key_count t \<le> unat NOT_FOUND"
    using lookup_key_outcome [of t key] by blast
next
  assume "lookup_loop t key len cur_depth node_id = Some (Inr (Returned v'))"
  then show "v' = NOT_FOUND" by (rule lookup_loop_Returned)
next
  assume "lookup_loop t key len 1 0 = Some (Inr (Completed n)) \<and>
    unat len < length (d_outs_refs_ptr t) \<and>
    get (d_outs_refs_ptr t ! unat len) (unat n) = Inr False"
  then show "lookup_key t key len = Some (Inr NOT_FOUND)"
    using lookup_key_Completed [of t key len n] by simp
next
  show "unat NOT_FOUND = 2 ^ 64 - 1" by (rule unat_NOT_FOUND)
  show "\<forall>w :: 64 word. w \<le> NOT_FOUND" by (simp add: NOT_FOUND_def)
qed

theorem lookup_key_outcomes_witness:
  "wf_trie ant_trie \<and> length ''an'' < length (d_levels_ptr ant_trie) \<and>
   lookup_key ant_trie ''an'' (of_nat (length ''an'')) = Some (Inr 1) \<and>
   unat (1 :: 64 word) < key_count ant_trie \<and>
   wf_trie ant_trie_padded \<and>
   num_slots ant_trie_padded (length (d_levels_ptr ant_trie_padded) - 1) = 0 \<and>
   length ''anta'' < (2 :: nat) ^ 64 \<and>
   lookup_key ant_trie_padded ''anta'' (of_nat (length ''anta'')) = Some (Inr NOT_FOUND) \<and>
   lookup_loop ant_trie ''b'' 1 1 0 = Some (Inr (Returned NOT_FOUND)) \<and>
   lookup_loop bush_trie ''a'' 1 1 0 = Some (Inr (Completed 0)) \<and>
   unat (1 :: 64 word) < length (d_outs_refs_ptr bush_trie) \<and>
   get (d_outs_refs_ptr bush_trie ! unat (1 :: 64 word)) (unat (0 :: 32 word)) = Inr False \<and>
   lookup_key bush_trie ''a'' 1 = Some (Inr NOT_FOUND)"
proof -
  have a: "length ''an'' < length (d_levels_ptr ant_trie)" by (simp add: ant_trie_def)
  have v: "lookup_key ant_trie ''an'' (of_nat (length ''an'')) = Some (Inr 1)" by code_simp
  have k: "unat (1 :: 64 word) < key_count ant_trie"
    by (simp add: key_count_def terminal_count_def ant_trie_def)
  have e: "num_slots ant_trie_padded (length (d_levels_ptr ant_trie_padded) - 1) = 0"
    "length ''anta'' < (2 :: nat) ^ 64"
    by (simp_all add: ant_trie_padded_def ant_trie_def num_slots_def)
  have pv: "lookup_key ant_trie_padded ''anta'' (of_nat (length ''anta'')) = Some (Inr NOT_FOUND)"
    by code_simp
  have l: "lookup_loop ant_trie ''b'' 1 1 0 = Some (Inr (Returned NOT_FOUND))" by code_simp
  have c: "lookup_loop bush_trie ''a'' 1 1 0 = Some (Inr (Completed 0))" by code_simp
  have g: "unat (1 :: 64 word) < length (d_outs_refs_ptr bush_trie)"
    "get (d_outs_refs_ptr bush_trie ! unat (1 :: 64 word)) (unat (0 :: 32 word)) = Inr False"
    by (simp_all add: bush_trie_def get_def)
  have n: "lookup_key bush_trie ''a'' 1 = Some (Inr NOT_FOUND)"
    using lookup_key_outcomes [of bush_trie "''a''" 1 1 0 NOT_FOUND 0] c g by blast
  have "\<exists>v. lookup_key ant_trie ''an'' (of_nat (length ''an'')) = Some (Inr v) \<and>
           (v = NOT_FOUND \<or> unat v < key_count ant_trie) \<and> key_count ant_trie \<le> unat NOT_FOUND"
    using lookup_key_outcomes [of ant_trie "''an''" 1 1 0 NOT_FOUND 0] wf_trie_ant a by blast
  moreover have "\<exists>v. lookup_key ant_trie_padded ''anta'' (of_nat (length ''anta'')) = Some (Inr v) \<and>
           (v = NOT_FOUND \<or> unat v < key_count ant_trie_padded) \<and>
           key_count ant_trie_padded \<le> unat NOT_FOUND"
    using lookup_key_outcomes [of ant_trie_padded "''anta''" 1 1 0 NOT_FOUND 0]
      wf_trie_ant_padded e by blast
  ultimately show ?thesis using wf_trie_ant wf_trie_ant_padded a v k e pv l c g n by blast
qed

text \<open>
  As claim C7 was stated, for every input, it fails in three ways. In the well-formed view
  of \<open>a\<close>, \<open>an\<close>, \<open>and\<close>, \<open>ant\<close> the key \<open>anta\<close> has one symbol more than there are depths
  below the root, and the lookup reads \<^verbatim>\<open>d_louds_refs_ptr_[4]\<close>, past the four entries. In
  the view whose root has \<open>2\<^sup>3\<^sup>2 - 1\<close> children the lookup of the stored key
  \<open>[2\<^sup>3\<^sup>2 - 2]\<close> does not return: \<^verbatim>\<open>begin + end\<close> wraps at every turn of the binary search.
  In the chain of \<open>2\<^sup>3\<^sup>2\<close> depths the lookup of the stored key of \<open>2\<^sup>3\<^sup>2 - 1\<close> symbols 0
  reads past the key after the 32-bit \<^verbatim>\<open>cur_depth\<close> has wrapped to 0.
\<close>

theorem lookup_key_outcomes_counterexample:
  "wf_trie ant_trie \<and> lookup_key ant_trie ''anta'' 4 = Some (Inl OutOfBounds) \<and>
   well_formed fan_trie \<and> [2 ^ 32 - 2] \<in> set (stored_keys fan_trie) \<and>
   lookup_key fan_trie [2 ^ 32 - 2] 1 = None \<and>
   well_formed chain_trie \<and>
   length (replicate (2 ^ 32 - 1) (0 :: nat)) < length (d_levels_ptr chain_trie) \<and>
   replicate (2 ^ 32 - 1) 0 \<in> set (stored_keys chain_trie) \<and>
   lookup_key chain_trie (replicate (2 ^ 32 - 1) 0) (of_nat (2 ^ 32 - 1)) = Some (Inl OutOfBounds)"
proof -
  have "lookup_key ant_trie ''anta'' 4 = Some (Inl OutOfBounds)" by code_simp
  then show ?thesis
    using wf_trie_ant well_formed_fan stored_key_fan lookup_key_fan [of "2 ^ 32 - 2"]
      well_formed_chain stored_key_chain lookup_key_chain chain_lengths(1)
    by simp
qed

subsection \<open>Membership\<close>

text \<open>
  Claim C1, amended. For every well-formed view within the index bounds and every key
  shorter than the number of depths: if the key is in the build set, \<^verbatim>\<open>lookup_key\<close>
  returns a rank in \<open>[0, keyCount)\<close>, which is not the sentinel; if it is not in the build
  set, a proper prefix or a superstring of a stored key or any other sequence,
  \<^verbatim>\<open>lookup_key\<close> returns the sentinel. A key that is not shorter than the number of depths
  is never in the build set, and \<^verbatim>\<open>lookup_key\<close> returns the sentinel for it when its
  first symbols leave the trie before the deepest depth. So in a view whose deepest depth
  has no slots the two statements hold for keys of every length.
\<close>

theorem lookup_key_membership:
  "(wf_trie t \<and> length key < length (d_levels_ptr t) \<longrightarrow>
      (key \<in> set (stored_keys t) \<longrightarrow>
         (\<exists>r < key_count t.
            lookup_key t key (of_nat (length key)) = Some (Inr (of_nat r)) \<and>
            unat (of_nat r :: 64 word) = r \<and> (of_nat r :: 64 word) \<noteq> NOT_FOUND)) \<and>
      (key \<notin> set (stored_keys t) \<longrightarrow>
         lookup_key t key (of_nat (length key)) = Some (Inr NOT_FOUND))) \<and>
   (wf_trie t \<and> length (d_levels_ptr t) \<le> length key \<and> length key < 2 ^ 64 \<longrightarrow>
      key \<notin> set (stored_keys t) \<and>
      (walk t 0 0 (take (length (d_levels_ptr t) - 1) key) = None \<longrightarrow>
         lookup_key t key (of_nat (length key)) = Some (Inr NOT_FOUND))) \<and>
   (wf_trie t \<and> num_slots t (length (d_levels_ptr t) - 1) = 0 \<and> length key < 2 ^ 64 \<longrightarrow>
      (key \<in> set (stored_keys t) \<longrightarrow>
         (\<exists>r < key_count t.
            lookup_key t key (of_nat (length key)) = Some (Inr (of_nat r)) \<and>
            unat (of_nat r :: 64 word) = r \<and> (of_nat r :: 64 word) \<noteq> NOT_FOUND)) \<and>
      (key \<notin> set (stored_keys t) \<longrightarrow>
         lookup_key t key (of_nat (length key)) = Some (Inr NOT_FOUND)))"
  (is "(?short \<longrightarrow> ?present \<and> ?absent) \<and> (?long \<longrightarrow> ?not_stored \<and> ?diverges) \<and>
       (?padded \<longrightarrow> ?present \<and> ?absent)")
proof (intro conjI)
  show "?short \<longrightarrow> ?present \<and> ?absent"
    using lookup_key_present [of t key] lookup_key_absent [of t key] by blast
  show "?long \<longrightarrow> ?not_stored \<and> ?diverges"
  proof
    assume ?long
    then have wf: "wf_trie t" and long: "length (d_levels_ptr t) \<le> length key"
      and k64: "length key < 2 ^ 64" by simp_all
    have ?diverges using lookup_key_long_key [OF wf long k64] by simp
    then show "?not_stored \<and> ?diverges" using long_key_not_stored [OF wf long] by (rule conjI [rotated])
  qed
  show "?padded \<longrightarrow> ?present \<and> ?absent"
    using lookup_key_present [of t key] lookup_key_absent_empty_level [of t key] by blast
qed

theorem lookup_key_membership_witness:
  "wf_trie ant_trie \<and> length ''and'' < length (d_levels_ptr ant_trie) \<and>
   ''and'' \<in> set (stored_keys ant_trie) \<and>
   (\<exists>r < key_count ant_trie.
      lookup_key ant_trie ''and'' (of_nat (length ''and'')) = Some (Inr (of_nat r)) \<and>
      unat (of_nat r :: 64 word) = r \<and> (of_nat r :: 64 word) \<noteq> NOT_FOUND) \<and>
   length ''an'' < length (d_levels_ptr bush_trie) \<and> ''an'' \<notin> set (stored_keys bush_trie) \<and>
   lookup_key bush_trie ''an'' (of_nat (length ''an'')) = Some (Inr NOT_FOUND) \<and>
   wf_trie bush_trie \<and> length (d_levels_ptr bush_trie) \<le> length ''bxpq'' \<and>
   length ''bxpq'' < (2 :: nat) ^ 64 \<and>
   walk bush_trie 0 0 (take (length (d_levels_ptr bush_trie) - 1) ''bxpq'') = None \<and>
   ''bxpq'' \<notin> set (stored_keys bush_trie) \<and>
   lookup_key bush_trie ''bxpq'' (of_nat (length ''bxpq'')) = Some (Inr NOT_FOUND) \<and>
   wf_trie ant_trie_padded \<and>
   num_slots ant_trie_padded (length (d_levels_ptr ant_trie_padded) - 1) = 0 \<and>
   length ''andy'' < (2 :: nat) ^ 64 \<and> ''andy'' \<notin> set (stored_keys ant_trie_padded) \<and>
   lookup_key ant_trie_padded ''andy'' (of_nat (length ''andy'')) = Some (Inr NOT_FOUND) \<and>
   ''ant'' \<in> set (stored_keys ant_trie_padded) \<and>
   (\<exists>r < key_count ant_trie_padded.
      lookup_key ant_trie_padded ''ant'' (of_nat (length ''ant'')) = Some (Inr (of_nat r)) \<and>
      unat (of_nat r :: 64 word) = r \<and> (of_nat r :: 64 word) \<noteq> NOT_FOUND)"
proof -
  have a: "length ''and'' < length (d_levels_ptr ant_trie)" by (simp add: ant_trie_def)
  have m: "''and'' \<in> set (stored_keys ant_trie)" by code_simp
  have b: "length ''an'' < length (d_levels_ptr bush_trie)" by (simp add: bush_trie_def)
  have nm: "''an'' \<notin> set (stored_keys bush_trie)" by code_simp
  have c: "length (d_levels_ptr bush_trie) \<le> length ''bxpq''" "length ''bxpq'' < (2 :: nat) ^ 64"
    by (simp_all add: bush_trie_def)
  have w: "walk bush_trie 0 0 (take (length (d_levels_ptr bush_trie) - 1) ''bxpq'') = None"
    by code_simp
  have e: "num_slots ant_trie_padded (length (d_levels_ptr ant_trie_padded) - 1) = 0"
    "length ''andy'' < (2 :: nat) ^ 64" "length ''ant'' < (2 :: nat) ^ 64"
    by (simp_all add: ant_trie_padded_def ant_trie_def num_slots_def)
  have pn: "''andy'' \<notin> set (stored_keys ant_trie_padded)" by code_simp
  have pm: "''ant'' \<in> set (stored_keys ant_trie_padded)" by code_simp
  have p: "\<exists>r < key_count ant_trie.
      lookup_key ant_trie ''and'' (of_nat (length ''and'')) = Some (Inr (of_nat r)) \<and>
      unat (of_nat r :: 64 word) = r \<and> (of_nat r :: 64 word) \<noteq> NOT_FOUND"
    using lookup_key_membership [of ant_trie "''and''"] wf_trie_ant a m by blast
  have q: "lookup_key bush_trie ''an'' (of_nat (length ''an'')) = Some (Inr NOT_FOUND)"
    using lookup_key_membership [of bush_trie "''an''"] wf_trie_bush b nm by blast
  have r: "''bxpq'' \<notin> set (stored_keys bush_trie) \<and>
      lookup_key bush_trie ''bxpq'' (of_nat (length ''bxpq'')) = Some (Inr NOT_FOUND)"
    using lookup_key_membership [of bush_trie "''bxpq''"] wf_trie_bush c w by blast
  have s: "lookup_key ant_trie_padded ''andy'' (of_nat (length ''andy'')) = Some (Inr NOT_FOUND)"
    using lookup_key_membership [of ant_trie_padded "''andy''"] wf_trie_ant_padded e(1,2) pn
    by blast
  have u: "\<exists>r < key_count ant_trie_padded.
      lookup_key ant_trie_padded ''ant'' (of_nat (length ''ant'')) = Some (Inr (of_nat r)) \<and>
      unat (of_nat r :: 64 word) = r \<and> (of_nat r :: 64 word) \<noteq> NOT_FOUND"
    using lookup_key_membership [of ant_trie_padded "''ant''"] wf_trie_ant_padded e(1,3) pm
    by blast
  show ?thesis
    using wf_trie_ant wf_trie_bush wf_trie_ant_padded a m p b nm q c w r e(1,2) pn s pm u
    by blast
qed

text \<open>
  As claim C1 was stated, for every view of the data model and every key, it fails in
  three ways. In the well-formed view of \<open>a\<close>, \<open>an\<close>, \<open>and\<close>, \<open>ant\<close>, which has the depths 0 to
  3, the key \<open>andy\<close> is not in the build set, and its lookup does not return the sentinel
  but reads \<^verbatim>\<open>d_louds_refs_ptr_[4]\<close>, past the array. In the view in which node 1 has the
  child range \<open>[2\<^sup>3\<^sup>1, 2\<^sup>3\<^sup>1 + 2)\<close> the key \<open>[1, 2]\<close> is in the build set, and its lookup
  returns the sentinel: the midpoint of the range wraps to slot 1. In the chain of \<open>2\<^sup>3\<^sup>2\<close>
  depths the key of \<open>2\<^sup>3\<^sup>2 - 1\<close> symbols 0 is in the build set, and its lookup reads past
  the key after the 32-bit \<^verbatim>\<open>cur_depth\<close> has wrapped to 0.
\<close>

theorem lookup_key_membership_counterexample:
  "wf_trie ant_trie \<and> ''andy'' \<notin> set (stored_keys ant_trie) \<and>
   lookup_key ant_trie ''andy'' (of_nat (length ''andy'')) = Some (Inl OutOfBounds) \<and>
   well_formed lopsided_trie \<and> [1, 2] \<in> set (stored_keys lopsided_trie) \<and>
   lookup_key lopsided_trie [1, 2] (of_nat (length [1 :: nat, 2])) = Some (Inr NOT_FOUND) \<and>
   well_formed chain_trie \<and>
   length (replicate (2 ^ 32 - 1) (0 :: nat)) < length (d_levels_ptr chain_trie) \<and>
   replicate (2 ^ 32 - 1) 0 \<in> set (stored_keys chain_trie) \<and>
   lookup_key chain_trie (replicate (2 ^ 32 - 1) 0) (of_nat (2 ^ 32 - 1)) = Some (Inl OutOfBounds)"
proof -
  have "''andy'' \<notin> set (stored_keys ant_trie)" by code_simp
  moreover have "lookup_key ant_trie ''andy'' (of_nat (length ''andy'')) = Some (Inl OutOfBounds)"
    by code_simp
  ultimately show ?thesis
    using wf_trie_ant well_formed_lopsided stored_keys_lopsided(2) lookup_key_lopsided [of 2]
      well_formed_chain stored_key_chain lookup_key_chain chain_lengths(1)
    by simp
qed

subsection \<open>Ranks are a bijection\<close>




end
